theory Spec2Isabelle
  imports Main "HOL-Library.Word"
begin

section \<open>Data model\<close>

text \<open>
  The two loaders of the repository, \<open>InWasm\<close> and \<open>EmWasm\<close>, take one object and
  either hand back a getter (a closure over the destructured properties \<open>t\<close>, \<open>s\<close>,
  \<open>d\<close>, \<open>e\<close> and, in \<open>InWasm\<close>, two memo variables) or pass the object to the ambient
  compile context. The embedding makes everything the closures touch explicit: the closure
  variables are a record, object identity is a reference number drawn from an allocation
  counter, every platform and engine call is logged, and an asynchronous engine call is a
  task that is settled by a later step.
\<close>

type_synonym byte = "8 word"

text \<open>\<open>const enum OutputType\<close> and \<open>const enum OutputMode\<close>.\<close>

datatype OutputType = INSTANCE | MODULE | BYTES

datatype OutputMode = ASYNC | SYNC

text \<open>
  The JavaScript values that can sit in the untyped property \<open>e\<close>, with the language's
  truthiness (which both \<open>_env\<close> and the tests on \<open>d\<close> and \<open>s\<close> use).
\<close>

datatype jsval =
    JUndefined
  | JNull
  | JBool bool
  | JNum int
  | JStr string
  | JObj "(string \<times> jsval) list"

fun truthy :: "jsval \<Rightarrow> bool" where
  "truthy JUndefined = False"
| "truthy JNull = False"
| "truthy (JBool b) = b"
| "truthy (JNum n) = (n \<noteq> 0)"
| "truthy (JStr x) = (x \<noteq> [])"
| "truthy (JObj kvs) = True"

text \<open>What a call can throw: the loader's own \<open>Error\<close>, and whatever the platform throws.\<close>

datatype error =
    Error string
  | TypeError string
  | DOMException string
  | CompileError string
  | LinkError string
  | RuntimeError string
  | CaptureSignal

text \<open>
  \<open>interface IWasmDefinition\<close>: the authoring shape. The loaders read none of its
  properties; it has no property \<open>d\<close>. (The fields carry a prefix because
  \<open>imports\<close> is a keyword of the theory language.)
\<close>

record authoring =
  a_name :: string
  a_type :: OutputType
  a_mode :: OutputMode
  a_imports :: "string option"
  a_srctype :: string
  a_code :: string

text \<open>
  The runtime definition \<open>{t, s, d, e}\<close> that the compile step writes in place of the
  authoring literal. \<open>e\<close> is \<open>JUndefined\<close> when the property is missing.
\<close>

record compiled =
  t :: OutputType
  s :: bool
  d :: string
  e :: jsval

datatype wasm_definition = Authoring authoring | Compiled compiled

text \<open>\<open>(def as any).d\<close>: \<open>undefined\<close> on an authoring object.\<close>

fun prop_d :: "wasm_definition \<Rightarrow> jsval" where
  "prop_d (Authoring a) = JUndefined"
| "prop_d (Compiled c) = JStr (d c)"

text \<open>
  Objects with identity: a \<open>Uint8Array\<close>, a \<open>WebAssembly.Module\<close> (with the bytes it
  was compiled from) and a \<open>WebAssembly.Instance\<close> (with its module and the import
  argument it was linked against).
\<close>

record bytes_obj =
  bref :: nat
  bdata :: "byte list"

record module_obj =
  mref :: nat
  mcode :: "byte list"

record instance_obj =
  iref :: nat
  imodule :: module_obj
  iimports :: jsval

text \<open>
  The values a getter or the engine can produce; \<open>VSource m i\<close> is the object
  \<open>{ module, instance }\<close> that \<open>WebAssembly.instantiate\<close> resolves to when it is
  given bytes.
\<close>

datatype val =
    VBytes bytes_obj
  | VModule module_obj
  | VInstance instance_obj
  | VSource module_obj instance_obj

text \<open>
  A promise is either made by \<open>Promise.resolve\<close> (already resolved) or stands for an
  engine operation in flight, named by its task number.
\<close>

datatype promise = Resolved val | Pending nat

datatype retval = Now val | Future promise

section \<open>Codec\<close>

text \<open>
  \<open>_env\<close>: \<open>env ? { env: env } : undefined\<close>. (A name cannot start with an
  underscore here, so \<open>_env\<close> and \<open>_dec\<close> are \<open>env\<close> and \<open>dec\<close>.)
\<close>

definition env :: "jsval \<Rightarrow> jsval" where
  "env x = (if truthy x then JObj [(''env'', x)] else JUndefined)"

text \<open>
  The loop of \<open>_dec\<close>, \<open>for (let i = 0; i < r.length; ++i) r[i] = bs.charCodeAt(i)\<close>,
  over a \<open>Uint8Array\<close> \<open>r\<close> and the code units \<open>bs\<close> of a string. A store into a
  \<open>Uint8Array\<close> keeps the value modulo 256, which \<open>of_nat\<close> into \<open>8 word\<close> does.
\<close>

function dec_loop :: "byte list \<Rightarrow> nat list \<Rightarrow> nat \<Rightarrow> byte list" where
  "dec_loop r bs i = (if i < length r then dec_loop (r[i := of_nat (bs ! i)]) bs (Suc i) else r)"
  by pat_completeness auto
termination
  by (relation "measure (\<lambda>(r, bs, i). length r - i)") auto

declare dec_loop.simps [simp del]

section \<open>The platform and the engine\<close>

text \<open>
  An asynchronous engine call in flight, and the callback the loader chained to it with
  \<open>.then\<close>: none, \<open>m => mod = m\<close>, \<open>r => (mod = r.module) && r.instance\<close>, or
  \<open>r => r.instance\<close>.
\<close>

datatype hostop =
    OpCompile bytes_obj
  | OpInstantiateBytes bytes_obj jsval
  | OpInstantiateModule module_obj jsval

datatype reaction = NoThen | ThenStoreModule | ThenStoreModuleGetInstance | ThenGetInstance

text \<open>The log of everything a loader asks of its surroundings, oldest first.\<close>

datatype event =
    Decode string
  | NewModule bytes_obj
  | NewInstance module_obj jsval
  | Async hostop
  | Settle nat

text \<open>
  The surroundings of a closure: the allocation counter that gives fresh objects their
  identity, the log, the engine operations in flight, the store of the definition
  objects that callers hold (a loader receives a reference to one), and what a compile
  context has collected.
\<close>

record world =
  next_ref :: nat
  trace :: "event list"
  pending :: "(nat \<times> hostop \<times> reaction) list"
  heap :: "nat \<Rightarrow> wasm_definition option"
  captured :: "wasm_definition list"

text \<open>
  What the source takes from its platform, as parameters: \<open>Buffer.from(s, 'base64')\<close>
  (\<open>None\<close> when \<open>typeof Buffer === 'undefined'\<close>), \<open>atob\<close> (which returns the code
  units of a string, or throws), the engine's verdict on compiling bytes and on linking a
  module's code against an import argument (\<open>Some err\<close> is the error it throws or rejects
  with; the first argument is the length of the log, so a verdict may change over time),
  and the ambient \<open>_wasmCtx\<close> and \<open>_emwasmCtx\<close> with their \<open>add\<close> (\<open>None\<close> when the
  variable is not defined; \<open>add\<close> may change the world and may throw).
\<close>

record host =
  Buffer_from :: "(string \<Rightarrow> byte list) option"
  atob :: "string \<Rightarrow> error + nat list"
  compile_error :: "nat \<Rightarrow> byte list \<Rightarrow> error option"
  link_error :: "nat \<Rightarrow> byte list \<Rightarrow> jsval \<Rightarrow> error option"
  wasmCtx :: "(wasm_definition \<Rightarrow> world \<Rightarrow> error option \<times> world) option"
  emwasmCtx :: "(wasm_definition \<Rightarrow> world \<Rightarrow> error option \<times> world) option"

text \<open>Programs over a state that return a value or throw.\<close>

type_synonym ('st, 'a) prog = "'st \<Rightarrow> (error + 'a) \<times> 'st"

definition returnE :: "'a \<Rightarrow> ('st, 'a) prog" where
  "returnE x st = (Inr x, st)"

definition bindE :: "('st, 'a) prog \<Rightarrow> ('a \<Rightarrow> ('st, 'b) prog) \<Rightarrow> ('st, 'b) prog" where
  "bindE m f st = (case m st of (Inl err, st1) \<Rightarrow> (Inl err, st1) | (Inr x, st1) \<Rightarrow> f x st1)"

definition on_world :: "(world, 'a) prog \<Rightarrow> ('c \<times> world, 'a) prog" where
  "on_world m = (\<lambda>(c, w). case m w of (r, w1) \<Rightarrow> (r, c, w1))"

definition log :: "event \<Rightarrow> world \<Rightarrow> world" where
  "log ev w = w\<lparr>trace := trace w @ [ev]\<rparr>"

definition alloc :: "world \<Rightarrow> nat \<times> world" where
  "alloc w = (next_ref w, w\<lparr>next_ref := Suc (next_ref w)\<rparr>)"

text \<open>
  \<open>_dec\<close>: the platform's binary-safe decoder when there is one, otherwise \<open>atob\<close> and
  the loop over a fresh \<open>Uint8Array\<close> of the string's length. Either way the result is a
  new object.
\<close>

definition dec :: "host \<Rightarrow> string \<Rightarrow> (world, bytes_obj) prog" where
  "dec H x w =
    (let w1 = log (Decode x) w in
     case Buffer_from H of
       Some from_base64 \<Rightarrow>
         (case alloc w1 of (r, w2) \<Rightarrow> (Inr \<lparr>bref = r, bdata = from_base64 x\<rparr>, w2))
     | None \<Rightarrow>
         (case atob H x of
            Inl err \<Rightarrow> (Inl err, w1)
          | Inr bs \<Rightarrow>
              (case alloc w1 of (r, w2) \<Rightarrow>
                (Inr \<lparr>bref = r, bdata = dec_loop (replicate (length bs) 0) bs 0\<rparr>, w2))))"

text \<open>\<open>new W.Module(bytes)\<close> and \<open>new W.Instance(mod, imports)\<close>.\<close>

definition new_Module :: "host \<Rightarrow> bytes_obj \<Rightarrow> (world, module_obj) prog" where
  "new_Module H b w =
    (let w1 = log (NewModule b) w in
     case compile_error H (length (trace w)) (bdata b) of
       Some err \<Rightarrow> (Inl err, w1)
     | None \<Rightarrow> (case alloc w1 of (r, w2) \<Rightarrow> (Inr \<lparr>mref = r, mcode = bdata b\<rparr>, w2)))"

definition new_Instance :: "host \<Rightarrow> module_obj \<Rightarrow> jsval \<Rightarrow> (world, instance_obj) prog" where
  "new_Instance H m imp w =
    (let w1 = log (NewInstance m imp) w in
     case link_error H (length (trace w)) (mcode m) imp of
       Some err \<Rightarrow> (Inl err, w1)
     | None \<Rightarrow>
         (case alloc w1 of (r, w2) \<Rightarrow> (Inr \<lparr>iref = r, imodule = m, iimports = imp\<rparr>, w2)))"

text \<open>
  \<open>W.compile(..)\<close> and \<open>W.instantiate(..)\<close>, with the callback chained to them: the
  call returns a pending promise at once and leaves a task behind.
\<close>

definition W_async :: "hostop \<Rightarrow> reaction \<Rightarrow> (world, retval) prog" where
  "W_async op r w =
    (case alloc (log (Async op) w) of
       (k, w1) \<Rightarrow> (Inr (Future (Pending k)), w1\<lparr>pending := pending w1 @ [(k, op, r)]\<rparr>))"

text \<open>The engine finishing an operation: the value its promise resolves to, or the error.\<close>

definition complete :: "host \<Rightarrow> hostop \<Rightarrow> (world, val) prog" where
  "complete H op w =
    (case op of
       OpCompile b \<Rightarrow>
         (case compile_error H (length (trace w)) (bdata b) of
            Some err \<Rightarrow> (Inl err, w)
          | None \<Rightarrow> (case alloc w of (r, w1) \<Rightarrow> (Inr (VModule \<lparr>mref = r, mcode = bdata b\<rparr>), w1)))
     | OpInstantiateBytes b imp \<Rightarrow>
         (case compile_error H (length (trace w)) (bdata b) of
            Some err \<Rightarrow> (Inl err, w)
          | None \<Rightarrow>
              (case link_error H (length (trace w)) (bdata b) imp of
                 Some err \<Rightarrow> (Inl err, w)
               | None \<Rightarrow>
                   (case alloc w of (r, w1) \<Rightarrow>
                     (case alloc w1 of (r', w2) \<Rightarrow>
                       (let m = \<lparr>mref = r, mcode = bdata b\<rparr> in
                        (Inr (VSource m \<lparr>iref = r', imodule = m, iimports = imp\<rparr>), w2))))))
     | OpInstantiateModule m imp \<Rightarrow>
         (case link_error H (length (trace w)) (mcode m) imp of
            Some err \<Rightarrow> (Inl err, w)
          | None \<Rightarrow>
              (case alloc w of (r, w1) \<Rightarrow>
                (Inr (VInstance \<lparr>iref = r, imodule = m, iimports = imp\<rparr>), w1))))"

text \<open>What a chained callback assigns to \<open>mod\<close>, and what it returns.\<close>

fun then_store :: "reaction \<Rightarrow> val \<Rightarrow> module_obj option" where
  "then_store ThenStoreModule (VModule m) = Some m"
| "then_store ThenStoreModuleGetInstance (VSource m i) = Some m"
| "then_store r v = None"

fun then_value :: "reaction \<Rightarrow> val \<Rightarrow> val" where
  "then_value ThenStoreModuleGetInstance (VSource m i) = VInstance i"
| "then_value ThenGetInstance (VSource m i) = VInstance i"
| "then_value r v = v"

section \<open>InWasm\<close>

text \<open>
  The variables a getter of \<open>InWasm\<close> closes over: the destructured \<open>t\<close>, \<open>s\<close>, \<open>d\<close>,
  \<open>e\<close> and the two memo variables \<open>bytes\<close> and \<open>mod\<close> (\<open>None\<close> is \<open>undefined\<close>;
  an object is always truthy). The second field is written \<open>mod'\<close>, since \<open>mod\<close> is
  the remainder operator here.
\<close>

record closure = compiled +
  bytes :: "bytes_obj option"
  mod' :: "module_obj option"

text \<open>\<open>bytes || (bytes = _dec(d))\<close>\<close>

definition bytes_or_dec :: "host \<Rightarrow> (closure \<times> world, bytes_obj) prog" where
  "bytes_or_dec H = (\<lambda>(c, w).
     case bytes c of
       Some b \<Rightarrow> returnE b (c, w)
     | None \<Rightarrow>
         bindE (on_world (dec H (d c)))
           (\<lambda>b (c1, w1). returnE b (c1\<lparr>bytes := Some b\<rparr>, w1)) (c, w))"

text \<open>\<open>mod || (mod = new W.Module(bytes || (bytes = _dec(d))))\<close>\<close>

definition mod_or_new :: "host \<Rightarrow> (closure \<times> world, module_obj) prog" where
  "mod_or_new H = (\<lambda>(c, w).
     case mod' c of
       Some m \<Rightarrow> returnE m (c, w)
     | None \<Rightarrow>
         bindE (bytes_or_dec H)
           (\<lambda>b. bindE (on_world (new_Module H b))
             (\<lambda>m (c1, w1). returnE m (c1\<lparr>mod' := Some m\<rparr>, w1))) (c, w))"

text \<open>
  One invocation of the getter that \<open>InWasm\<close> returned: the six arrow functions, chosen
  by \<open>t\<close> and \<open>s\<close> as the source chooses them (\<open>BYTES\<close>, then \<open>MODULE\<close>, then the rest).
\<close>

definition InWasm_get :: "host \<Rightarrow> (closure \<times> world, retval) prog" where
  "InWasm_get H = (\<lambda>(c, w).
     if t c = BYTES then
       (if s c then bindE (bytes_or_dec H) (\<lambda>b. returnE (Now (VBytes b))) (c, w)
        else bindE (bytes_or_dec H) (\<lambda>b. returnE (Future (Resolved (VBytes b)))) (c, w))
     else if t c = MODULE then
       (if s c then bindE (mod_or_new H) (\<lambda>m. returnE (Now (VModule m))) (c, w)
        else
          (case mod' c of
             Some m \<Rightarrow> returnE (Future (Resolved (VModule m))) (c, w)
           | None \<Rightarrow>
               bindE (bytes_or_dec H)
                 (\<lambda>b. on_world (W_async (OpCompile b) ThenStoreModule)) (c, w)))
     else
       (if s c then
          bindE (mod_or_new H)
            (\<lambda>m. bindE (on_world (new_Instance H m (env (e c))))
              (\<lambda>i. returnE (Now (VInstance i)))) (c, w)
        else
          (case mod' c of
             Some m \<Rightarrow> on_world (W_async (OpInstantiateModule m (env (e c))) NoThen) (c, w)
           | None \<Rightarrow>
               bindE (bytes_or_dec H)
                 (\<lambda>b. on_world
                    (W_async (OpInstantiateBytes b (env (e c))) ThenStoreModuleGetInstance))
                 (c, w))))"

text \<open>
  The engine settles the operation in flight with number \<open>k\<close>: the chained callback runs
  (and may assign \<open>mod\<close>), and the promise is fulfilled with the callback's value or
  rejected with the engine's error. \<open>None\<close> when no such operation is in flight.
\<close>

definition settle :: "host \<Rightarrow> nat \<Rightarrow> closure \<times> world \<Rightarrow> (error + val) option \<times> closure \<times> world" where
  "settle H k = (\<lambda>(c, w).
     case map_of (pending w) k of
       None \<Rightarrow> (None, c, w)
     | Some (op, r) \<Rightarrow>
         (case complete H op (log (Settle k) (w\<lparr>pending := filter (\<lambda>p. fst p \<noteq> k) (pending w)\<rparr>)) of
            (Inl err, w1) \<Rightarrow> (Some (Inl err), c, w1)
          | (Inr v, w1) \<Rightarrow>
              (Some (Inr (then_value r v)),
               (case then_store r v of Some m \<Rightarrow> c\<lparr>mod' := Some m\<rparr> | None \<Rightarrow> c), w1)))"

text \<open>What an entry point returns: a getter, or nothing (\<open>undefined\<close>).\<close>

datatype 'c entry = Getter 'c | Nothing

text \<open>
  \<open>InWasm(def)\<close>. The test \<open>if ((def as any).d)\<close> is a truthiness test; an authoring
  object has no \<open>d\<close>, so only a compiled one can pass it.
\<close>

definition InWasm :: "host \<Rightarrow> wasm_definition \<Rightarrow> (world, closure entry) prog" where
  \<open>InWasm H def w =
    (case (truthy (prop_d def), def) of
       (True, Compiled c) \<Rightarrow>
         (Inr (Getter \<lparr>t = t c, s = s c, d = d c, e = e c, bytes = None, mod' = None\<rparr>), w)
     | _ \<Rightarrow>
         (case wasmCtx H of
            None \<Rightarrow> (Inl (Error ''must run "inwasm"''), w)
          | Some add \<Rightarrow>
              (case add def w of
                 (Some err, w1) \<Rightarrow> (Inl err, w1)
               | (None, w1) \<Rightarrow> (Inr Nothing, w1))))\<close>

section \<open>EmWasm\<close>

text \<open>
  The getters of \<open>EmWasm\<close> close over \<open>t\<close>, \<open>s\<close>, \<open>d\<close>, \<open>e\<close> and the constant
  \<open>bytes\<close>, decoded when \<open>EmWasm\<close> itself runs. They keep no module.
\<close>

record em_closure = compiled +
  em_bytes :: bytes_obj

definition EmWasm_get :: "host \<Rightarrow> em_closure \<Rightarrow> (world, retval) prog" where
  "EmWasm_get H c w =
    (if t c = BYTES then
       (if s c then returnE (Now (VBytes (em_bytes c))) w
        else returnE (Future (Resolved (VBytes (em_bytes c)))) w)
     else if t c = MODULE then
       (if s c then bindE (new_Module H (em_bytes c)) (\<lambda>m. returnE (Now (VModule m))) w
        else W_async (OpCompile (em_bytes c)) NoThen w)
     else
       (if s c then
          bindE (new_Module H (em_bytes c))
            (\<lambda>m. bindE (new_Instance H m (env (e c))) (\<lambda>i. returnE (Now (VInstance i)))) w
        else W_async (OpInstantiateBytes (em_bytes c) (env (e c))) ThenGetInstance w))"

definition em_settle :: "host \<Rightarrow> nat \<Rightarrow> world \<Rightarrow> (error + val) option \<times> world" where
  "em_settle H k w =
    (case map_of (pending w) k of
       None \<Rightarrow> (None, w)
     | Some (op, r) \<Rightarrow>
         (case complete H op (log (Settle k) (w\<lparr>pending := filter (\<lambda>p. fst p \<noteq> k) (pending w)\<rparr>)) of
            (Inl err, w1) \<Rightarrow> (Some (Inl err), w1)
          | (Inr v, w1) \<Rightarrow> (Some (Inr (then_value r v)), w1)))"

definition EmWasm :: "host \<Rightarrow> wasm_definition \<Rightarrow> (world, em_closure entry) prog" where
  \<open>EmWasm H def w =
    (case (truthy (prop_d def), def) of
       (True, Compiled c) \<Rightarrow>
         bindE (dec H (d c))
           (\<lambda>b. returnE (Getter \<lparr>t = t c, s = s c, d = d c, e = e c, em_bytes = b\<rparr>)) w
     | _ \<Rightarrow>
         (case emwasmCtx H of
            None \<Rightarrow> (Inl (Error ''must run "emwasm"''), w)
          | Some add \<Rightarrow>
              (case add def w of
                 (Some err, w1) \<Rightarrow> (Inl err, w1)
               | (None, w1) \<Rightarrow> (Inr Nothing, w1))))\<close>

section \<open>Definitions as objects\<close>

text \<open>
  A caller holds the definition as an object and passes a reference to it; the object stays
  in the store, where the caller can assign to its properties later. \<open>InWasm_at\<close> and
  \<open>EmWasm_at\<close> are the entry points called with the reference \<open>p\<close>. (A reference
  to nothing stands for \<open>undefined\<close>, on which the property access \<open>def.d\<close>
  throws.)
\<close>

definition InWasm_at :: "host \<Rightarrow> nat \<Rightarrow> (world, closure entry) prog" where
  "InWasm_at H p w =
     (case heap w p of
        Some def \<Rightarrow> InWasm H def w
      | None \<Rightarrow> (Inl (TypeError ''Cannot read properties of undefined''), w))"

definition EmWasm_at :: "host \<Rightarrow> nat \<Rightarrow> (world, em_closure entry) prog" where
  "EmWasm_at H p w =
     (case heap w p of
        Some def \<Rightarrow> EmWasm H def w
      | None \<Rightarrow> (Inl (TypeError ''Cannot read properties of undefined''), w))"

section \<open>Runs\<close>

text \<open>
  A client of a getter invokes it, and the engine settles operations in flight, in any
  order, on one thread. A run is a list of such steps; it yields what each step returned.
\<close>

datatype action = Invoke | Resolve nat

datatype obs = Returned "error + retval" | Outcome "(error + val) option"

fun InWasm_step :: "host \<Rightarrow> action \<Rightarrow> closure \<times> world \<Rightarrow> obs \<times> closure \<times> world" where
  "InWasm_step H Invoke st = (case InWasm_get H st of (r, st1) \<Rightarrow> (Returned r, st1))"
| "InWasm_step H (Resolve k) st = (case settle H k st of (r, st1) \<Rightarrow> (Outcome r, st1))"

fun InWasm_run :: "host \<Rightarrow> action list \<Rightarrow> closure \<times> world \<Rightarrow> obs list \<times> closure \<times> world" where
  "InWasm_run H [] st = ([], st)"
| "InWasm_run H (a # as) st =
     (case InWasm_step H a st of (x, st1) \<Rightarrow>
       (case InWasm_run H as st1 of (xs, st2) \<Rightarrow> (x # xs, st2)))"

fun EmWasm_step :: "host \<Rightarrow> em_closure \<Rightarrow> action \<Rightarrow> world \<Rightarrow> obs \<times> world" where
  "EmWasm_step H c Invoke w = (case EmWasm_get H c w of (r, w1) \<Rightarrow> (Returned r, w1))"
| "EmWasm_step H c (Resolve k) w = (case em_settle H k w of (r, w1) \<Rightarrow> (Outcome r, w1))"

fun EmWasm_run :: "host \<Rightarrow> em_closure \<Rightarrow> action list \<Rightarrow> world \<Rightarrow> obs list \<times> world" where
  "EmWasm_run H c [] w = ([], w)"
| "EmWasm_run H c (a # as) w =
     (case EmWasm_step H c a w of (x, w1) \<Rightarrow>
       (case EmWasm_run H c as w1 of (xs, w2) \<Rightarrow> (x # xs, w2)))"

text \<open>Reading a log: the decodings, the compilations of bytes, the import arguments.\<close>

fun is_decode :: "event \<Rightarrow> bool" where
  "is_decode (Decode x) = True"
| "is_decode ev = False"

fun is_compile :: "event \<Rightarrow> bool" where
  "is_compile (NewModule b) = True"
| "is_compile (Async (OpCompile b)) = True"
| "is_compile (Async (OpInstantiateBytes b imp)) = True"
| "is_compile ev = False"

fun import_arg :: "event \<Rightarrow> jsval list" where
  "import_arg (NewInstance m imp) = [imp]"
| "import_arg (Async (OpInstantiateBytes b imp)) = [imp]"
| "import_arg (Async (OpInstantiateModule m imp)) = [imp]"
| "import_arg ev = []"

definition decodes :: "event list \<Rightarrow> nat" where
  "decodes tr = length (filter is_decode tr)"

definition compiles :: "event list \<Rightarrow> nat" where
  "compiles tr = length (filter is_compile tr)"

definition import_args :: "event list \<Rightarrow> jsval list" where
  "import_args tr = concat (map import_arg tr)"

text \<open>The identities of the objects a run handed out.\<close>

fun val_ref :: "val \<Rightarrow> nat" where
  "val_ref (VBytes b) = bref b"
| "val_ref (VModule m) = mref m"
| "val_ref (VInstance i) = iref i"
| "val_ref (VSource m i) = iref i"

fun returned_refs :: "obs \<Rightarrow> nat list" where
  "returned_refs (Returned (Inr (Now v))) = [val_ref v]"
| "returned_refs (Returned (Inr (Future (Resolved v)))) = [val_ref v]"
| "returned_refs (Outcome (Some (Inr v))) = [val_ref v]"
| "returned_refs x = []"

text \<open>An error that the platform handed to the loader, as opposed to one the loader made.\<close>

definition platform_error :: "host \<Rightarrow> error \<Rightarrow> bool" where
  "platform_error H err \<longleftrightarrow>
     (\<exists>x. atob H x = Inl err) \<or> (\<exists>n code. compile_error H n code = Some err) \<or>
     (\<exists>n code imp. link_error H n code imp = Some err)"

text \<open>
  The numbers of the operations in flight were all drawn from the allocation counter, so a
  new operation gets a number of its own.
\<close>

definition fresh_ids :: "world \<Rightarrow> bool" where
  "fresh_ids w \<longleftrightarrow> (\<forall>p \<in> set (pending w). fst p < next_ref w)"

text \<open>
  What a value is, apart from its identity: its kind, the bytes it is made of, and for an
  instance the import argument it was linked against. And the contents of what a step of a
  run hands to the client.
\<close>

fun content :: "val \<Rightarrow> OutputType \<times> byte list \<times> jsval list" where
  "content (VBytes b) = (BYTES, bdata b, [])"
| "content (VModule m) = (MODULE, mcode m, [])"
| "content (VInstance i) = (INSTANCE, mcode (imodule i), [iimports i])"
| "content (VSource m i) = (INSTANCE, mcode m, [iimports i])"

fun obs_content :: "obs \<Rightarrow> (OutputType \<times> byte list \<times> jsval list) list" where
  "obs_content (Returned (Inr (Now v))) = [content v]"
| "obs_content (Returned (Inr (Future (Resolved v)))) = [content v]"
| "obs_content (Outcome (Some (Inr v))) = [content v]"
| "obs_content x = []"

text \<open>
  The content that a getter for output type \<open>ty\<close> over the bytes \<open>bs\<close> and the
  import argument \<open>imp\<close> is to deliver.
\<close>

definition expected :: "OutputType \<Rightarrow> byte list \<Rightarrow> jsval \<Rightarrow> OutputType \<times> byte list \<times> jsval list" where
  "expected ty bs imp = (ty, bs, if ty = INSTANCE then [imp] else [])"

text \<open>
  The invariant of a getter's state: what is stored was made from the bytes \<open>bs\<close>, and
  so will be what the operations in flight produce, which are of the kind that the output
  type calls for and carry a callback that hands on a value of that type.
\<close>

definition cache_ok :: "byte list \<Rightarrow> closure \<Rightarrow> bool" where
  "cache_ok bs c \<longleftrightarrow>
     (case bytes c of Some b \<Rightarrow> bdata b = bs | None \<Rightarrow> True) \<and>
     (case mod' c of Some m \<Rightarrow> mcode m = bs | None \<Rightarrow> True)"

fun task_ok :: "OutputType \<Rightarrow> byte list \<Rightarrow> jsval \<Rightarrow> hostop \<times> reaction \<Rightarrow> bool" where
  "task_ok ty bs imp (OpCompile b, r) = (ty = MODULE \<and> bdata b = bs)"
| "task_ok ty bs imp (OpInstantiateBytes b i, r) =
     (ty = INSTANCE \<and> bdata b = bs \<and> i = imp \<and> (r = ThenStoreModuleGetInstance \<or> r = ThenGetInstance))"
| "task_ok ty bs imp (OpInstantiateModule m i, r) = (ty = INSTANCE \<and> mcode m = bs \<and> i = imp)"

definition tasks_ok :: "OutputType \<Rightarrow> byte list \<Rightarrow> jsval \<Rightarrow> world \<Rightarrow> bool" where
  "tasks_ok ty bs imp w \<longleftrightarrow> list_all (\<lambda>p. task_ok ty bs imp (snd p)) (pending w)"

text \<open>
  What an invocation delivers to its caller, apart from identity: it throws, it hands a
  value over, or it returns a promise that settles with a value or an error (or that
  nothing in flight will settle). The fate of a pending promise is what the engine settles
  its operation with.
\<close>

datatype delivery =
    Thrown error
  | Handed "OutputType \<times> byte list \<times> jsval list"
  | Promised "error + OutputType \<times> byte list \<times> jsval list"
  | Unsettled

fun settled :: "(error + val) option \<Rightarrow> delivery" where
  "settled None = Unsettled"
| "settled (Some (Inl err)) = Promised (Inl err)"
| "settled (Some (Inr v)) = Promised (Inr (content v))"

fun delivered :: "(nat \<Rightarrow> (error + val) option) \<Rightarrow> error + retval \<Rightarrow> delivery" where
  "delivered fate (Inl err) = Thrown err"
| "delivered fate (Inr (Now v)) = Handed (content v)"
| "delivered fate (Inr (Future (Resolved v))) = Promised (Inr (content v))"
| "delivered fate (Inr (Future (Pending k))) = settled (fate k)"

text \<open>
  What the next invocation of a getter delivers, the engine settling the promise it
  returns.
\<close>

definition InWasm_delivers :: "host \<Rightarrow> closure \<times> world \<Rightarrow> delivery" where
  "InWasm_delivers H st =
     (case InWasm_get H st of (r, st1) \<Rightarrow> delivered (\<lambda>k. fst (settle H k st1)) r)"

definition EmWasm_delivers :: "host \<Rightarrow> em_closure \<Rightarrow> world \<Rightarrow> delivery" where
  "EmWasm_delivers H g w =
     (case EmWasm_get H g w of (r, w1) \<Rightarrow> delivered (\<lambda>k. fst (em_settle H k w1)) r)"

text \<open>
  An engine whose verdict on given bytes and on a given import argument is the same
  whenever it is asked.
\<close>

definition steady :: "host \<Rightarrow> bool" where
  "steady H \<longleftrightarrow>
     (\<forall>n code. compile_error H n code = compile_error H 0 code) \<and>
     (\<forall>n code imp. link_error H n code imp = link_error H 0 code imp)"

text \<open>
  What such an engine makes of the bytes \<open>bs\<close> for output type \<open>ty\<close> and import
  argument \<open>imp\<close>, and what a getter of that type and mode owes its caller accordingly:
  thrown or handed over in synchronous mode, promised in asynchronous mode.
\<close>

definition verdict ::
  "host \<Rightarrow> OutputType \<Rightarrow> byte list \<Rightarrow> jsval \<Rightarrow> error + OutputType \<times> byte list \<times> jsval list" where
  "verdict H ty bs imp =
     (if ty = BYTES then Inr (expected ty bs imp)
      else
        (case compile_error H 0 bs of
           Some err \<Rightarrow> Inl err
         | None \<Rightarrow>
             (if ty = MODULE then Inr (expected ty bs imp)
              else
                (case link_error H 0 bs imp of
                   Some err \<Rightarrow> Inl err
                 | None \<Rightarrow> Inr (expected ty bs imp)))))"

definition due :: "host \<Rightarrow> OutputType \<Rightarrow> bool \<Rightarrow> byte list \<Rightarrow> jsval \<Rightarrow> delivery" where
  "due H ty sync bs imp =
     (if sync then (case verdict H ty bs imp of Inl err \<Rightarrow> Thrown err | Inr k \<Rightarrow> Handed k)
      else Promised (verdict H ty bs imp))"

text \<open>
  A further invariant: an instantiation in flight that starts from a module was issued
  when a module was stored, so the engine had compiled the bytes.
\<close>

definition ops_sound :: "host \<Rightarrow> byte list \<Rightarrow> world \<Rightarrow> bool" where
  "ops_sound H bs w \<longleftrightarrow>
     (\<forall>p \<in> set (pending w). \<forall>m i. fst (snd p) = OpInstantiateModule m i \<longrightarrow>
        compile_error H 0 bs = None)"

section \<open>Base64\<close>

text \<open>
  Modelled from the spec: the encoding of \<open>d\<close> (``base64 string of raw wasm bytes''),
  which the compile step of the repository writes and the platform's decoders read; neither
  is among the source files. This is the standard alphabet with \<open>=\<close> padding. It
  serves as the platform of the examples below and to state the round trip.
\<close>

definition b64_alphabet :: string where
  "b64_alphabet = ''ABCDEFGHIJKLMNOPQRSTUVWXYZabcdefghijklmnopqrstuvwxyz0123456789+/''"

definition b64_char :: "nat \<Rightarrow> char" where
  "b64_char i = b64_alphabet ! i"

definition b64_index :: "char \<Rightarrow> nat option" where
  "b64_index ch = map_of (zip b64_alphabet [0..<64]) ch"

fun b64_encode :: "byte list \<Rightarrow> string" where
  "b64_encode [] = []"
| "b64_encode [x] =
     [b64_char (unat x div 4), b64_char (unat x mod 4 * 16), CHR ''='', CHR ''='']"
| "b64_encode [x, y] =
     [b64_char (unat x div 4), b64_char (unat x mod 4 * 16 + unat y div 16),
      b64_char (unat y mod 16 * 4), CHR ''='']"
| "b64_encode (x # y # z # rest) =
     b64_char (unat x div 4) # b64_char (unat x mod 4 * 16 + unat y div 16) #
     b64_char (unat y mod 16 * 4 + unat z div 64) # b64_char (unat z mod 64) # b64_encode rest"

fun b64_decode :: "string \<Rightarrow> byte list option" where
  "b64_decode [] = Some []"
| "b64_decode (c1 # c2 # c3 # c4 # rest) =
     (case (b64_index c1, b64_index c2) of
        (Some i1, Some i2) \<Rightarrow>
          (if c3 = CHR ''='' \<and> c4 = CHR ''='' \<and> rest = [] then
             Some [of_nat (i1 * 4 + i2 div 16)]
           else
             (case b64_index c3 of
                Some i3 \<Rightarrow>
                  (if c4 = CHR ''='' \<and> rest = [] then
                     Some [of_nat (i1 * 4 + i2 div 16), of_nat (i2 mod 16 * 16 + i3 div 4)]
                   else
                     (case (b64_index c4, b64_decode rest) of
                        (Some i4, Some bs) \<Rightarrow>
                          Some (of_nat (i1 * 4 + i2 div 16) # of_nat (i2 mod 16 * 16 + i3 div 4) #
                                of_nat (i3 mod 4 * 64 + i4) # bs)
                      | _ \<Rightarrow> None))
              | None \<Rightarrow> None))
      | _ \<Rightarrow> None)"
| "b64_decode cs = None"

text \<open>
  A platform decoder agrees with an encoder on a byte sequence: whichever decoder \<open>_dec\<close>
  will pick gives the bytes back (\<open>atob\<close> as the string of their code units).
\<close>

definition decoder_inverts :: "host \<Rightarrow> (byte list \<Rightarrow> string) \<Rightarrow> byte list \<Rightarrow> bool" where
  "decoder_inverts H enc bs =
     (case Buffer_from H of
        Some from_base64 \<Rightarrow> from_base64 (enc bs) = bs
      | None \<Rightarrow> atob H (enc bs) = Inr (map unat bs))"

section \<open>Example platforms\<close>

text \<open>
  Concrete surroundings for the examples: Node (with \<open>Buffer\<close>), a browser (without), a
  build run (with a compile context whose \<open>add\<close> collects the definition and raises), an
  engine that accepts the bytes that start with the wasm magic number, and an engine that
  runs out of memory at first.
\<close>

definition std_atob :: "string \<Rightarrow> error + nat list" where
  "std_atob x =
     (case b64_decode x of
        Some bs \<Rightarrow> Inr (map unat bs)
      | None \<Rightarrow> Inl (DOMException ''InvalidCharacterError''))"

definition std_from_base64 :: "string \<Rightarrow> byte list" where
  "std_from_base64 x = (case b64_decode x of Some bs \<Rightarrow> bs | None \<Rightarrow> [])"

definition magic_check :: "nat \<Rightarrow> byte list \<Rightarrow> error option" where
  "magic_check n code =
     (if take 4 code = [0x00, 0x61, 0x73, 0x6D] then None
      else Some (CompileError ''expected magic word''))"

definition node :: host where
  "node = \<lparr>Buffer_from = Some std_from_base64, atob = std_atob, compile_error = magic_check,
     link_error = (\<lambda>n code imp. None), wasmCtx = None, emwasmCtx = None\<rparr>"

definition browser :: host where
  "browser = node\<lparr>Buffer_from := None\<rparr>"

definition capture :: "wasm_definition \<Rightarrow> world \<Rightarrow> error option \<times> world" where
  "capture def w = (Some CaptureSignal, w\<lparr>captured := captured w @ [def]\<rparr>)"

definition build :: host where
  "build = node\<lparr>wasmCtx := Some capture, emwasmCtx := Some capture\<rparr>"

text \<open>
  The ids of the sections of a module's binary, after the eight bytes of magic number and
  version (read with one-byte section sizes, which is all the examples need); section 2
  holds the imports. The linker of \<open>linking_node\<close> does what the engines do with a module
  that declares imports when it is given no import object; it does not look into an object
  that it is given.
\<close>

fun section_ids :: "byte list \<Rightarrow> byte list" where
  "section_ids (i # n # rest) = i # section_ids (drop (unat n) rest)"
| "section_ids rest = []"

definition declares_imports :: "byte list \<Rightarrow> bool" where
  "declares_imports code \<longleftrightarrow> 2 \<in> set (section_ids (drop 8 code))"

definition wants_imports :: "nat \<Rightarrow> byte list \<Rightarrow> jsval \<Rightarrow> error option" where
  "wants_imports n code imp =
     (if declares_imports code \<and> imp = JUndefined then
        Some (TypeError ''Imports argument must be present and must be an object'')
      else None)"

definition linking_node :: host where
  "linking_node = node\<lparr>link_error := wants_imports\<rparr>"

definition flaky_node :: host where
  "flaky_node = node\<lparr>compile_error :=
     (\<lambda>n code. if n < 2 then Some (RuntimeError ''out of memory'') else magic_check n code)\<rparr>"

definition w0 :: world where
  "w0 = \<lparr>next_ref = 0, trace = [], pending = [], heap = (\<lambda>r. None), captured = []\<rparr>"

text \<open>The smallest module, \<open>\0asm\<close> and version 1, and its encoding.\<close>

definition empty_module :: "byte list" where
  "empty_module = [0x00, 0x61, 0x73, 0x6D, 0x01, 0x00, 0x00, 0x00]"

text \<open>
  A module that imports the immutable \<open>i32\<close> global \<open>g\<close> from \<open>env\<close>: the header and
  an import section with that one entry.
\<close>

definition importing_module :: "byte list" where
  "importing_module =
     [0x00, 0x61, 0x73, 0x6D, 0x01, 0x00, 0x00, 0x00,
      0x02, 0x0A, 0x01, 0x03, 0x65, 0x6E, 0x76, 0x01, 0x67, 0x03, 0x7F, 0x00]"

definition compiled_def :: "OutputType \<Rightarrow> bool \<Rightarrow> jsval \<Rightarrow> compiled" where
  "compiled_def ty sync ev = \<lparr>t = ty, s = sync, d = ''AGFzbQEAAAA='', e = ev\<rparr>"

text \<open>The closure of a getter that \<open>InWasm\<close> has just returned.\<close>

definition fresh :: "compiled \<Rightarrow> closure" where
  "fresh c = \<lparr>t = t c, s = s c, d = d c, e = e c, bytes = None, mod' = None\<rparr>"

definition adder :: authoring where
  "adder = \<lparr>a_name = ''adder'', a_type = INSTANCE, a_mode = SYNC, a_imports = None,
     a_srctype = ''C'', a_code = ''int add(int a, int b) { return a + b; }''\<rparr>"

text \<open>
  A session: an entry point is given a compiled definition in the empty world, and the
  getter it returns goes through a run. The session yields what the steps returned and the
  log at the end.
\<close>

definition InWasm_session :: "host \<Rightarrow> compiled \<Rightarrow> action list \<Rightarrow> obs list \<times> event list" where
  "InWasm_session H c acts =
     (case InWasm H (Compiled c) w0 of
        (Inr (Getter g), w) \<Rightarrow> (case InWasm_run H acts (g, w) of (xs, g1, w1) \<Rightarrow> (xs, trace w1))
      | (r, w) \<Rightarrow> ([], trace w))"

definition EmWasm_session :: "host \<Rightarrow> compiled \<Rightarrow> action list \<Rightarrow> obs list \<times> event list" where
  "EmWasm_session H c acts =
     (case EmWasm H (Compiled c) w0 of
        (Inr (Getter g), w) \<Rightarrow> (case EmWasm_run H g acts w of (xs, w1) \<Rightarrow> (xs, trace w1))
      | (r, w) \<Rightarrow> ([], trace w))"

section \<open>Basic facts\<close>

text \<open>The entry points, by the shape of their argument.\<close>

lemma InWasm_authoring:
  \<open>InWasm H (Authoring a) w =
    (case wasmCtx H of
       None \<Rightarrow> (Inl (Error ''must run "inwasm"''), w)
     | Some add \<Rightarrow>
         (case add (Authoring a) w of
            (Some err, w1) \<Rightarrow> (Inl err, w1)
          | (None, w1) \<Rightarrow> (Inr Nothing, w1)))\<close>
  by (simp add: InWasm_def)

lemma InWasm_compiled:
  \<open>InWasm H (Compiled c) w =
    (if d c \<noteq> [] then (Inr (Getter (fresh c)), w)
     else
       (case wasmCtx H of
          None \<Rightarrow> (Inl (Error ''must run "inwasm"''), w)
        | Some add \<Rightarrow>
            (case add (Compiled c) w of
               (Some err, w1) \<Rightarrow> (Inl err, w1)
             | (None, w1) \<Rightarrow> (Inr Nothing, w1))))\<close>
  by (simp add: InWasm_def fresh_def)

lemma EmWasm_authoring:
  \<open>EmWasm H (Authoring a) w =
    (case emwasmCtx H of
       None \<Rightarrow> (Inl (Error ''must run "emwasm"''), w)
     | Some add \<Rightarrow>
         (case add (Authoring a) w of
            (Some err, w1) \<Rightarrow> (Inl err, w1)
          | (None, w1) \<Rightarrow> (Inr Nothing, w1)))\<close>
  by (simp add: EmWasm_def)

lemma EmWasm_compiled:
  \<open>EmWasm H (Compiled c) w =
    (if d c \<noteq> [] then
       (case dec H (d c) w of
          (Inl err, w1) \<Rightarrow> (Inl err, w1)
        | (Inr b, w1) \<Rightarrow> (Inr (Getter \<lparr>t = t c, s = s c, d = d c, e = e c, em_bytes = b\<rparr>), w1))
     else
       (case emwasmCtx H of
          None \<Rightarrow> (Inl (Error ''must run "emwasm"''), w)
        | Some add \<Rightarrow>
            (case add (Compiled c) w of
               (Some err, w1) \<Rightarrow> (Inl err, w1)
             | (None, w1) \<Rightarrow> (Inr Nothing, w1))))\<close>
  by (simp add: EmWasm_def bindE_def returnE_def split: prod.split sum.split)

lemma dec_loop_take:
  "length r = length bs \<Longrightarrow> i \<le> length bs \<Longrightarrow>
    dec_loop r bs i = take i r @ map of_nat (drop i bs)"
proof (induction r bs i rule: dec_loop.induct)
  case (1 r bs i)
  show ?case
  proof (cases "i < length r")
    case True
    then have step: "dec_loop r bs i = dec_loop (r[i := of_nat (bs ! i)]) bs (Suc i)"
      by (simp add: dec_loop.simps [of r bs i])
    have "dec_loop (r[i := of_nat (bs ! i)]) bs (Suc i) =
        take (Suc i) (r[i := of_nat (bs ! i)]) @ map of_nat (drop (Suc i) bs)"
      using "1.IH" [OF True] "1.prems" True by simp
    also have "take (Suc i) (r[i := of_nat (bs ! i)]) = take i r @ [of_nat (bs ! i)]"
      using True by (simp add: take_Suc_conv_app_nth)
    also have "(take i r @ [of_nat (bs ! i)]) @ map of_nat (drop (Suc i) bs) =
        take i r @ map of_nat (drop i bs)"
      using True "1.prems" by (simp add: Cons_nth_drop_Suc [symmetric])
    finally show ?thesis using step by simp
  next
    case False
    then have "dec_loop r bs i = r"
      by (subst dec_loop.simps) simp
    then show ?thesis
      using False "1.prems" by simp
  qed
qed

lemma dec_loop_map: "dec_loop (replicate (length bs) 0) bs 0 = map of_nat bs"
  using dec_loop_take [of "replicate (length bs) 0" bs 0] by simp

text \<open>The bytes \<open>_dec\<close> yields, apart from the allocation and the log.\<close>

lemma dec_eq:
  "dec H x w =
    (case (case Buffer_from H of
             Some from_base64 \<Rightarrow> Inr (from_base64 x)
           | None \<Rightarrow> map_sum id (map of_nat) (atob H x)) of
       Inl err \<Rightarrow> (Inl err, log (Decode x) w)
     | Inr bs \<Rightarrow>
         (Inr \<lparr>bref = next_ref w, bdata = bs\<rparr>,
          (log (Decode x) w)\<lparr>next_ref := Suc (next_ref w)\<rparr>))"
  by (simp add: dec_def alloc_def log_def dec_loop_map Let_def split: option.split sum.split)

lemma dec_error: "dec H x w = (Inl err, w1) \<Longrightarrow> atob H x = Inl err \<and> w1 = log (Decode x) w"
  by (cases "atob H x"; cases "Buffer_from H") (auto simp: dec_eq)

lemma new_Module_eq:
  "new_Module H b w =
    (case compile_error H (length (trace w)) (bdata b) of
       Some err \<Rightarrow> (Inl err, log (NewModule b) w)
     | None \<Rightarrow>
         (Inr \<lparr>mref = next_ref w, mcode = bdata b\<rparr>,
          (log (NewModule b) w)\<lparr>next_ref := Suc (next_ref w)\<rparr>))"
  by (simp add: new_Module_def alloc_def log_def Let_def split: option.split)

lemma new_Instance_eq:
  "new_Instance H m imp w =
    (case link_error H (length (trace w)) (mcode m) imp of
       Some err \<Rightarrow> (Inl err, log (NewInstance m imp) w)
     | None \<Rightarrow>
         (Inr \<lparr>iref = next_ref w, imodule = m, iimports = imp\<rparr>,
          (log (NewInstance m imp) w)\<lparr>next_ref := Suc (next_ref w)\<rparr>))"
  by (simp add: new_Instance_def alloc_def log_def Let_def split: option.split)

lemma W_async_eq:
  "W_async op r w =
    (Inr (Future (Pending (next_ref w))),
     (log (Async op) w)\<lparr>next_ref := Suc (next_ref w),
        pending := pending w @ [(next_ref w, op, r)]\<rparr>)"
  by (simp add: W_async_def alloc_def log_def)

lemma bytes_or_dec_Some: "bytes c = Some b \<Longrightarrow> bytes_or_dec H (c, w) = (Inr b, c, w)"
  by (simp add: bytes_or_dec_def returnE_def)

lemma bytes_or_dec_None:
  "bytes c = None \<Longrightarrow> bytes_or_dec H (c, w) =
    (case dec H (d c) w of
       (Inl err, w1) \<Rightarrow> (Inl err, c, w1)
     | (Inr b, w1) \<Rightarrow> (Inr b, c\<lparr>bytes := Some b\<rparr>, w1))"
  by (simp add: bytes_or_dec_def returnE_def bindE_def on_world_def split: prod.split sum.split)

lemma mod_or_new_Some: "mod' c = Some m \<Longrightarrow> mod_or_new H (c, w) = (Inr m, c, w)"
  by (simp add: mod_or_new_def returnE_def)

lemma mod_or_new_None:
  "mod' c = None \<Longrightarrow> mod_or_new H (c, w) =
    (case bytes_or_dec H (c, w) of
       (Inl err, c1, w1) \<Rightarrow> (Inl err, c1, w1)
     | (Inr b, c1, w1) \<Rightarrow>
         (case new_Module H b w1 of
            (Inl err, w2) \<Rightarrow> (Inl err, c1, w2)
          | (Inr m, w2) \<Rightarrow> (Inr m, c1\<lparr>mod' := Some m\<rparr>, w2)))"
  by (simp add: mod_or_new_def returnE_def bindE_def on_world_def split: prod.split sum.split)

text \<open>The six getters of \<open>InWasm\<close>, one equation each.\<close>

lemma get_BYTES:
  "t c = BYTES \<Longrightarrow> InWasm_get H (c, w) =
    (case bytes_or_dec H (c, w) of
       (Inl err, st) \<Rightarrow> (Inl err, st)
     | (Inr b, st) \<Rightarrow> (Inr (if s c then Now (VBytes b) else Future (Resolved (VBytes b))), st))"
  by (simp add: InWasm_get_def returnE_def bindE_def split: prod.split sum.split)

lemma get_MODULE_SYNC:
  "t c = MODULE \<Longrightarrow> s c \<Longrightarrow> InWasm_get H (c, w) =
    (case mod_or_new H (c, w) of
       (Inl err, st) \<Rightarrow> (Inl err, st)
     | (Inr m, st) \<Rightarrow> (Inr (Now (VModule m)), st))"
  by (simp add: InWasm_get_def returnE_def bindE_def split: prod.split sum.split)

lemma get_MODULE_ASYNC:
  "t c = MODULE \<Longrightarrow> \<not> s c \<Longrightarrow> InWasm_get H (c, w) =
    (case mod' c of
       Some m \<Rightarrow> (Inr (Future (Resolved (VModule m))), c, w)
     | None \<Rightarrow>
         (case bytes_or_dec H (c, w) of
            (Inl err, st) \<Rightarrow> (Inl err, st)
          | (Inr b, c1, w1) \<Rightarrow>
              (case W_async (OpCompile b) ThenStoreModule w1 of (r, w2) \<Rightarrow> (r, c1, w2))))"
  by (simp add: InWasm_get_def returnE_def bindE_def on_world_def
      split: prod.split sum.split option.split)

lemma get_INSTANCE_SYNC:
  "t c = INSTANCE \<Longrightarrow> s c \<Longrightarrow> InWasm_get H (c, w) =
    (case mod_or_new H (c, w) of
       (Inl err, st) \<Rightarrow> (Inl err, st)
     | (Inr m, c1, w1) \<Rightarrow>
         (case new_Instance H m (env (e c)) w1 of
            (Inl err, w2) \<Rightarrow> (Inl err, c1, w2)
          | (Inr i, w2) \<Rightarrow> (Inr (Now (VInstance i)), c1, w2)))"
  by (simp add: InWasm_get_def returnE_def bindE_def on_world_def split: prod.split sum.split)

lemma get_INSTANCE_ASYNC:
  "t c = INSTANCE \<Longrightarrow> \<not> s c \<Longrightarrow> InWasm_get H (c, w) =
    (case mod' c of
       Some m \<Rightarrow>
         (case W_async (OpInstantiateModule m (env (e c))) NoThen w of (r, w1) \<Rightarrow> (r, c, w1))
     | None \<Rightarrow>
         (case bytes_or_dec H (c, w) of
            (Inl err, st) \<Rightarrow> (Inl err, st)
          | (Inr b, c1, w1) \<Rightarrow>
              (case W_async (OpInstantiateBytes b (env (e c))) ThenStoreModuleGetInstance w1 of
                 (r, w2) \<Rightarrow> (r, c1, w2))))"
  by (simp add: InWasm_get_def returnE_def bindE_def on_world_def
      split: prod.split sum.split option.split)

section \<open>The round trip of base64\<close>

lemma b64_index_char: "i < 64 \<Longrightarrow> b64_index (b64_char i) = Some i"
proof -
  have "\<forall>i \<in> set [0..<64]. b64_index (b64_char i) = Some i"
    by code_simp
  then show "i < 64 \<Longrightarrow> b64_index (b64_char i) = Some i" by simp
qed

lemma b64_char_not_pad: "i < 64 \<Longrightarrow> b64_char i \<noteq> CHR ''=''"
proof -
  have "\<forall>i \<in> set [0..<64]. b64_char i \<noteq> CHR ''=''"
    by code_simp
  then show "i < 64 \<Longrightarrow> b64_char i \<noteq> CHR ''=''" by simp
qed


lemma hi_nibble: "uy < 256 \<Longrightarrow> uy div 16 < (16::nat)"
  by simp

lemma hi_pair: "uz < 256 \<Longrightarrow> uz div 64 < (4::nat)"
  by simp

lemma hi_sextet: "ux < 256 \<Longrightarrow> ux div 4 < (64::nat)"
  by simp

lemma sextet2: "q < 16 \<Longrightarrow> ux mod 4 * 16 + q < (64::nat)"
proof -
  assume "q < 16"
  moreover have "ux mod 4 < 4" by simp
  ultimately show ?thesis by linarith
qed

lemma sextet3: "q < 4 \<Longrightarrow> uy mod 16 * 4 + q < (64::nat)"
proof -
  assume "q < 4"
  moreover have "uy mod 16 < 16" by simp
  ultimately show ?thesis by linarith
qed

lemma join1: "q < 16 \<Longrightarrow> ux div 4 * 4 + (ux mod 4 * 16 + q) div 16 = (ux::nat)"
  by simp

lemma join2: "q < 16 \<Longrightarrow> r < 4 \<Longrightarrow> (a * 16 + q) mod 16 * 16 + (q' * 4 + r) div 4 = q * 16 + (q'::nat)"
  by simp

lemma join3: "r < 4 \<Longrightarrow> (a * 4 + r) mod 4 * 64 + uz mod 64 = r * 64 + (uz mod 64 :: nat)"
  by simp

lemma rejoin16: "uy div 16 * 16 + uy mod 16 = (uy::nat)"
  by simp

lemma rejoin64: "uz div 64 * 64 + uz mod 64 = (uz::nat)"
  by simp

lemma unat_byte_less: "unat (x :: byte) < 256"
  using unsigned_less [of x, where ?'a = nat] by simp

lemma b64_decode_quad:
  assumes "i1 < 64" "i2 < 64" "i3 < 64" "i4 < 64"
  shows "b64_decode (b64_char i1 # b64_char i2 # b64_char i3 # b64_char i4 # rest) =
    (case b64_decode rest of
       Some bs \<Rightarrow> Some (of_nat (i1 * 4 + i2 div 16) # of_nat (i2 mod 16 * 16 + i3 div 4) #
                       of_nat (i3 mod 4 * 64 + i4) # bs)
     | None \<Rightarrow> None)"
  using assms by (simp add: b64_index_char b64_char_not_pad split: option.split)

lemma b64_decode_pad1:
  assumes "i1 < 64" "i2 < 64" "i3 < 64"
  shows "b64_decode [b64_char i1, b64_char i2, b64_char i3, CHR ''=''] =
    Some [of_nat (i1 * 4 + i2 div 16), of_nat (i2 mod 16 * 16 + i3 div 4)]"
  using assms by (simp add: b64_index_char b64_char_not_pad)

lemma b64_decode_pad2:
  assumes "i1 < 64" "i2 < 64"
  shows "b64_decode [b64_char i1, b64_char i2, CHR ''='', CHR ''=''] =
    Some [of_nat (i1 * 4 + i2 div 16)]"
  using assms by (simp add: b64_index_char)

lemma b64_roundtrip: "b64_decode (b64_encode bs) = Some bs"
proof (induction bs rule: b64_encode.induct)
  case 1
  show ?case by simp
next
  case (2 x)
  have "unat x mod 4 * 16 + 0 < 64" by (rule sextet2) simp
  then have lt: "unat x mod 4 * 16 < 64" by simp
  have "unat x div 4 * 4 + (unat x mod 4 * 16 + 0) div 16 = unat x" by (rule join1) simp
  then have "unat x div 4 * 4 + (unat x mod 4 * 16) div 16 = unat x" by simp
  then show ?case
    using b64_decode_pad2 [OF hi_sextet [OF unat_byte_less [of x]] lt] by simp
next
  case (3 x y)
  have q: "unat y div 16 < 16" by (rule hi_nibble [OF unat_byte_less])
  have b1: "unat x div 4 * 4 + (unat x mod 4 * 16 + unat y div 16) div 16 = unat x"
    by (rule join1 [OF q])
  have "(unat x mod 4 * 16 + unat y div 16) mod 16 * 16 + (unat y mod 16 * 4 + 0) div 4
      = unat y div 16 * 16 + unat y mod 16"
    by (rule join2 [OF q]) simp
  then have b2: "(unat x mod 4 * 16 + unat y div 16) mod 16 * 16 + (unat y mod 16 * 4) div 4 = unat y"
    by simp
  have "unat y mod 16 * 4 + 0 < 64" by (rule sextet3) simp
  then have lt: "unat y mod 16 * 4 < 64" by simp
  show ?case
    using b64_decode_pad1 [OF hi_sextet [OF unat_byte_less [of x]] sextet2 [OF q, of "unat x"] lt]
    by (simp only: b64_encode.simps b1 b2 of_nat_unat ucast_id)
next
  case (4 x y z rest)
  have q: "unat y div 16 < 16" by (rule hi_nibble [OF unat_byte_less])
  have r: "unat z div 64 < 4" by (rule hi_pair [OF unat_byte_less])
  have b1: "unat x div 4 * 4 + (unat x mod 4 * 16 + unat y div 16) div 16 = unat x"
    by (rule join1 [OF q])
  have "(unat x mod 4 * 16 + unat y div 16) mod 16 * 16 + (unat y mod 16 * 4 + unat z div 64) div 4
      = unat y div 16 * 16 + unat y mod 16"
    by (rule join2 [OF q r])
  then have b2: "(unat x mod 4 * 16 + unat y div 16) mod 16 * 16
      + (unat y mod 16 * 4 + unat z div 64) div 4 = unat y"
    by (simp only: rejoin16)
  have "(unat y mod 16 * 4 + unat z div 64) mod 4 * 64 + unat z mod 64
      = unat z div 64 * 64 + unat z mod 64"
    by (rule join3 [OF r])
  then have b3: "(unat y mod 16 * 4 + unat z div 64) mod 4 * 64 + unat z mod 64 = unat z"
    by (simp only: rejoin64)
  have i4: "unat z mod 64 < 64" by simp
  show ?case
    using b64_decode_quad [OF hi_sextet [OF unat_byte_less [of x]] sextet2 [OF q, of "unat x"]
        sextet3 [OF r, of "unat y"] i4, of "b64_encode rest"] "4.IH"
    by (simp only: b64_encode.simps b1 b2 b3 of_nat_unat ucast_id option.case)
qed


section \<open>Where errors come from\<close>

lemma platform_errorI:
  "atob H x = Inl err \<Longrightarrow> platform_error H err"
  "compile_error H n code = Some err \<Longrightarrow> platform_error H err"
  "link_error H n code imp = Some err \<Longrightarrow> platform_error H err"
  unfolding platform_error_def by blast+

lemma bytes_or_dec_error:
  assumes "bytes_or_dec H (c, w) = (Inl err, c1, w1)"
  shows "bytes c = None \<and> atob H (d c) = Inl err \<and> c1 = c \<and> w1 = log (Decode (d c)) w"
proof (cases "bytes c")
  case None
  obtain r w' where dd: "dec H (d c) w = (r, w')" by (cases "dec H (d c) w")
  show ?thesis
  proof (cases r)
    case (Inl err')
    with assms None dd have "err' = err" "c1 = c" "w1 = w'"
      by (simp_all add: bytes_or_dec_None)
    with dec_error [of H "d c" w err w'] dd Inl None show ?thesis by simp
  next
    case (Inr b)
    with assms None dd show ?thesis by (simp add: bytes_or_dec_None)
  qed
next
  case (Some b)
  with assms show ?thesis by (simp add: bytes_or_dec_Some)
qed

lemma new_Module_error:
  "new_Module H b w = (Inl err, w1) \<Longrightarrow>
    compile_error H (length (trace w)) (bdata b) = Some err \<and> w1 = log (NewModule b) w"
  by (auto simp: new_Module_eq split: option.splits)

lemma new_Instance_error:
  "new_Instance H m imp w = (Inl err, w1) \<Longrightarrow>
    link_error H (length (trace w)) (mcode m) imp = Some err \<and> w1 = log (NewInstance m imp) w"
  by (auto simp: new_Instance_eq split: option.splits)

lemma mod_or_new_error:
  assumes "mod_or_new H (c, w) = (Inl err, c1, w1)"
  shows "mod' c = None \<and> mod' c1 = None \<and> platform_error H err"
proof (cases "mod' c")
  case None
  obtain r c' w' where bb: "bytes_or_dec H (c, w) = (r, c', w')"
    by (cases "bytes_or_dec H (c, w)")
  show ?thesis
  proof (cases r)
    case (Inl err')
    with assms None bb have "err' = err" "c1 = c'" by (simp_all add: mod_or_new_None)
    with bytes_or_dec_error [of H c w err c' w'] bb Inl None show ?thesis
      by (auto intro: platform_errorI(1))
  next
    case (Inr b)
    have keep: "mod' c' = None"
      using bb None Inr
      by (cases "bytes c")
        (auto simp: bytes_or_dec_Some bytes_or_dec_None split: prod.splits sum.splits)
    obtain r2 w2 where nn: "new_Module H b w' = (r2, w2)" by (cases "new_Module H b w'")
    show ?thesis
    proof (cases r2)
      case (Inl err')
      with assms None bb Inr nn have "err' = err" "c1 = c'" by (simp_all add: mod_or_new_None)
      with new_Module_error [of H b w' err w2] nn Inl None keep show ?thesis
        by (auto intro: platform_errorI(2))
    next
      case (Inr m)
      with assms None bb \<open>r = Inr b\<close> nn show ?thesis by (simp add: mod_or_new_None)
    qed
  qed
next
  case (Some m)
  with assms show ?thesis by (simp add: mod_or_new_Some)
qed

lemma InWasm_get_error:
  assumes "InWasm_get H (c, w) = (Inl err, c1, w1)"
  shows "platform_error H err"
proof (cases "t c")
  case BYTES
  with assms bytes_or_dec_error [of H c w err] show ?thesis
    by (auto simp: get_BYTES intro: platform_errorI(1) split: prod.splits sum.splits)
next
  case MODULE
  show ?thesis
  proof (cases "s c")
    case True
    with assms MODULE mod_or_new_error [of H c w err] show ?thesis
      by (auto simp: get_MODULE_SYNC split: prod.splits sum.splits)
  next
    case False
    with assms MODULE bytes_or_dec_error [of H c w err] show ?thesis
      by (auto simp: get_MODULE_ASYNC W_async_eq intro: platform_errorI(1)
          split: prod.splits sum.splits option.splits)
  qed
next
  case INSTANCE
  show ?thesis
  proof (cases "s c")
    case True
    obtain r c' w' where mm: "mod_or_new H (c, w) = (r, c', w')"
      by (cases "mod_or_new H (c, w)")
    show ?thesis
    proof (cases r)
      case (Inl err')
      with assms INSTANCE True mm have "err' = err" by (simp add: get_INSTANCE_SYNC)
      with mod_or_new_error [of H c w err c' w'] mm Inl show ?thesis by simp
    next
      case (Inr m)
      with assms INSTANCE True mm
      have "\<exists>w2. new_Instance H m (env (e c)) w' = (Inl err, w2)"
        by (auto simp: get_INSTANCE_SYNC split: prod.splits sum.splits)
      then show ?thesis
        using new_Instance_error [of H m "env (e c)" w' err] by (auto intro: platform_errorI(3))
    qed
  next
    case False
    with assms INSTANCE bytes_or_dec_error [of H c w err] show ?thesis
      by (auto simp: get_INSTANCE_ASYNC W_async_eq intro: platform_errorI(1)
          split: prod.splits sum.splits option.splits)
  qed
qed

lemma EmWasm_get_error:
  assumes "EmWasm_get H g w = (Inl err, w1)"
  shows "platform_error H err"
proof -
  have 1: "\<And>b w w'. new_Module H b w = (Inl err, w') \<Longrightarrow> platform_error H err"
    using new_Module_error platform_errorI(2) by blast
  have 2: "\<And>m imp w w'. new_Instance H m imp w = (Inl err, w') \<Longrightarrow> platform_error H err"
    using new_Instance_error platform_errorI(3) by blast
  show ?thesis
    using assms 1 2
    by (auto simp: EmWasm_get_def returnE_def bindE_def W_async_eq
        split: if_splits prod.splits sum.splits)
qed

section \<open>The entry points\<close>

text \<open>
  C1, as amended. Which way an entry point goes is decided by the truthiness of \<open>d\<close>,
  not by its presence: with a non-empty \<open>d\<close>, \<open>InWasm\<close> returns a getter and touches
  nothing, and \<open>EmWasm\<close> decodes \<open>d\<close> at once and returns a getter over the bytes (or
  passes on what the decoder throws); otherwise, that is for an authoring object and for a
  compiled one whose \<open>d\<close> is the empty string, the entry point calls \<open>add\<close> of its
  compile context with the definition and returns nothing when \<open>add\<close> returns (what
  \<open>add\<close> throws propagates), and throws its \<open>Error\<close> when it has no compile context.
\<close>

theorem entry_outcomes:
  \<open>(d c \<noteq> [] \<longrightarrow> InWasm H (Compiled c) w = (Inr (Getter (fresh c)), w)) \<and>
   (d c \<noteq> [] \<longrightarrow> EmWasm H (Compiled c) w =
      (case dec H (d c) w of
         (Inl err, w1) \<Rightarrow> (Inl err, w1)
       | (Inr b, w1) \<Rightarrow>
           (Inr (Getter \<lparr>t = t c, s = s c, d = d c, e = e c, em_bytes = b\<rparr>), w1))) \<and>
   (\<not> truthy (prop_d def) \<longrightarrow> wasmCtx H = Some add \<longrightarrow> InWasm H def w =
      (case add def w of (Some err, w1) \<Rightarrow> (Inl err, w1) | (None, w1) \<Rightarrow> (Inr Nothing, w1))) \<and>
   (\<not> truthy (prop_d def) \<longrightarrow> emwasmCtx H = Some add \<longrightarrow> EmWasm H def w =
      (case add def w of (Some err, w1) \<Rightarrow> (Inl err, w1) | (None, w1) \<Rightarrow> (Inr Nothing, w1))) \<and>
   (\<not> truthy (prop_d def) \<longrightarrow> wasmCtx H = None \<longrightarrow>
      InWasm H def w = (Inl (Error ''must run "inwasm"''), w)) \<and>
   (\<not> truthy (prop_d def) \<longrightarrow> emwasmCtx H = None \<longrightarrow>
      EmWasm H def w = (Inl (Error ''must run "emwasm"''), w)) \<and>
   (truthy (prop_d def) \<longleftrightarrow> (\<exists>c'. def = Compiled c' \<and> d c' \<noteq> []))\<close>
proof -
  have shape: "truthy (prop_d def) \<longleftrightarrow> (\<exists>c'. def = Compiled c' \<and> d c' \<noteq> [])"
    by (cases def) simp_all
  have "\<not> truthy (prop_d def) \<Longrightarrow> wasmCtx H = Some add \<Longrightarrow> InWasm H def w =
      (case add def w of (Some err, w1) \<Rightarrow> (Inl err, w1) | (None, w1) \<Rightarrow> (Inr Nothing, w1))"
    by (cases def) (simp_all add: InWasm_authoring InWasm_compiled)
  moreover have "\<not> truthy (prop_d def) \<Longrightarrow> emwasmCtx H = Some add \<Longrightarrow> EmWasm H def w =
      (case add def w of (Some err, w1) \<Rightarrow> (Inl err, w1) | (None, w1) \<Rightarrow> (Inr Nothing, w1))"
    by (cases def) (simp_all add: EmWasm_authoring EmWasm_compiled)
  moreover have \<open>\<not> truthy (prop_d def) \<Longrightarrow> wasmCtx H = None \<Longrightarrow>
      InWasm H def w = (Inl (Error ''must run "inwasm"''), w)\<close>
    by (cases def) (simp_all add: InWasm_authoring InWasm_compiled)
  moreover have \<open>\<not> truthy (prop_d def) \<Longrightarrow> emwasmCtx H = None \<Longrightarrow>
      EmWasm H def w = (Inl (Error ''must run "emwasm"''), w)\<close>
    by (cases def) (simp_all add: EmWasm_authoring EmWasm_compiled)
  ultimately show ?thesis
    using shape by (simp add: InWasm_compiled EmWasm_compiled)
qed

theorem entry_outcomes_witness:
  \<open>InWasm node (Compiled (compiled_def BYTES True JUndefined)) w0 =
      (Inr (Getter (fresh (compiled_def BYTES True JUndefined))), w0) \<and>
   InWasm build (Authoring adder) w0 = (Inl CaptureSignal, w0\<lparr>captured := [Authoring adder]\<rparr>) \<and>
   InWasm (node\<lparr>wasmCtx := Some (\<lambda>def w. (None, w\<lparr>captured := captured w @ [def]\<rparr>))\<rparr>)
      (Authoring adder) w0 = (Inr Nothing, w0\<lparr>captured := [Authoring adder]\<rparr>) \<and>
   InWasm node (Authoring adder) w0 = (Inl (Error ''must run "inwasm"''), w0) \<and>
   EmWasm node (Authoring adder) w0 = (Inl (Error ''must run "emwasm"''), w0)\<close>
proof -
  have nonempty: "d (compiled_def BYTES True JUndefined) \<noteq> []"
    by (simp add: compiled_def_def)
  have falsy: "\<not> truthy (prop_d (Authoring adder))" by simp
  have none: "wasmCtx node = None" "emwasmCtx node = None" by (simp_all add: node_def)
  have some: "wasmCtx build = Some capture" by (simp add: build_def node_def)
  have quiet: "wasmCtx (node\<lparr>wasmCtx := Some (\<lambda>def w. (None, w\<lparr>captured := captured w @ [def]\<rparr>))\<rparr>)
      = Some (\<lambda>def w. (None, w\<lparr>captured := captured w @ [def]\<rparr>))"
    by simp
  show ?thesis
    using entry_outcomes [of "compiled_def BYTES True JUndefined" node w0 "Authoring adder" capture]
      entry_outcomes [of "compiled_def BYTES True JUndefined" build w0 "Authoring adder" capture]
      entry_outcomes [of "compiled_def BYTES True JUndefined"
        "node\<lparr>wasmCtx := Some (\<lambda>def w. (None, w\<lparr>captured := captured w @ [def]\<rparr>))\<rparr>" w0
        "Authoring adder" "\<lambda>def w. (None, w\<lparr>captured := captured w @ [def]\<rparr>)"]
      nonempty falsy none some quiet
    by (simp add: capture_def w0_def)
qed

theorem entry_empty_d_counterexample:
  \<open>InWasm node (Compiled \<lparr>t = BYTES, s = True, d = [], e = JUndefined\<rparr>) w0 =
     (Inl (Error ''must run "inwasm"''), w0)\<close>
  by (simp add: InWasm_def node_def)

text \<open>
  C5. Given an authoring object and no compile context, an entry point throws at once and
  leaves the world as it was: no getter (and so no memo variable) comes into being and the
  log gains no entry. It is the only error of the loader's own making: whatever else an
  entry point throws was thrown by \<open>add\<close> or, in \<open>EmWasm\<close>, by the decoder, and
  whatever a getter throws was handed to it by the platform.
\<close>

theorem missing_compile_step:
  \<open>(wasmCtx H = None \<longrightarrow> InWasm H (Authoring a) w = (Inl (Error ''must run "inwasm"''), w)) \<and>
   (emwasmCtx H = None \<longrightarrow> EmWasm H (Authoring a) w = (Inl (Error ''must run "emwasm"''), w)) \<and>
   (InWasm H def w = (Inl err, w1) \<longrightarrow>
      (err = Error ''must run "inwasm"'' \<and> wasmCtx H = None \<and> w1 = w) \<or>
      (\<exists>add. wasmCtx H = Some add \<and> add def w = (Some err, w1))) \<and>
   (EmWasm H def w = (Inl err, w1) \<longrightarrow>
      (err = Error ''must run "emwasm"'' \<and> emwasmCtx H = None \<and> w1 = w) \<or>
      (\<exists>add. emwasmCtx H = Some add \<and> add def w = (Some err, w1)) \<or>
      platform_error H err) \<and>
   (InWasm_get H (c, w) = (Inl err, c1, w2) \<longrightarrow> platform_error H err) \<and>
   (EmWasm_get H g w = (Inl err, w2) \<longrightarrow> platform_error H err)\<close>
proof -
  have in_err: \<open>InWasm H def w = (Inl err, w1) \<Longrightarrow>
      (err = Error ''must run "inwasm"'' \<and> wasmCtx H = None \<and> w1 = w) \<or>
      (\<exists>add. wasmCtx H = Some add \<and> add def w = (Some err, w1))\<close>
    by (cases def)
      (auto simp: InWasm_authoring InWasm_compiled split: option.splits prod.splits if_splits)
  have em_err: \<open>EmWasm H def w = (Inl err, w1) \<Longrightarrow>
      (err = Error ''must run "emwasm"'' \<and> emwasmCtx H = None \<and> w1 = w) \<or>
      (\<exists>add. emwasmCtx H = Some add \<and> add def w = (Some err, w1)) \<or>
      platform_error H err\<close>
    by (cases def)
      (auto simp: EmWasm_authoring EmWasm_compiled dest: dec_error intro: platform_errorI(1)
        split: option.splits prod.splits if_splits sum.splits)
  show ?thesis
    using in_err em_err InWasm_get_error [of H c w err c1 w2] EmWasm_get_error [of H g w err w2]
    by (simp add: InWasm_authoring EmWasm_authoring)
qed

theorem missing_compile_step_witness:
  \<open>InWasm node (Authoring adder) w0 = (Inl (Error ''must run "inwasm"''), w0) \<and>
   EmWasm node (Authoring adder) w0 = (Inl (Error ''must run "emwasm"''), w0) \<and>
   platform_error node (CompileError ''expected magic word'')\<close>
proof -
  let ?bad = "\<lparr>t = MODULE, s = True, d = ''AAAA'', e = JUndefined, bytes = None, mod' = None\<rparr>"
  let ?g = "\<lparr>t = MODULE, s = True, d = ''AAAA'', e = JUndefined,
    em_bytes = \<lparr>bref = 0, bdata = [0, 0, 0]\<rparr>\<rparr>"
  have none: "wasmCtx node = None" "emwasmCtx node = None" by (simp_all add: node_def)
  obtain r c1 w2 where run: "InWasm_get node (?bad, w0) = (r, c1, w2)"
    by (cases "InWasm_get node (?bad, w0)")
  have "fst (InWasm_get node (?bad, w0)) = Inl (CompileError ''expected magic word'')"
    by code_simp
  with run have thrown: "InWasm_get node (?bad, w0) = (Inl (CompileError ''expected magic word''), c1, w2)"
    by simp
  have entry: "InWasm node (Authoring adder) w0 = (Inl (Error ''must run \"inwasm\"''), w0) \<and>
      EmWasm node (Authoring adder) w0 = (Inl (Error ''must run \"emwasm\"''), w0)"
    using missing_compile_step [of node adder w0 "Authoring adder" "CaptureSignal" w0 ?bad c1 w2 ?g]
      none by simp
  have "platform_error node (CompileError ''expected magic word'')"
    using missing_compile_step [of node adder w0 "Authoring adder"
        "CompileError ''expected magic word''" w0 ?bad c1 w2 ?g] thrown by simp
  with entry show ?thesis by simp
qed


section \<open>Reading the log\<close>

lemma trace_log [simp]: "trace (log ev w) = trace w @ [ev]"
  by (simp add: log_def)

lemma next_ref_log [simp]: "next_ref (log ev w) = next_ref w"
  by (simp add: log_def)

lemma pending_log [simp]: "pending (log ev w) = pending w"
  by (simp add: log_def)

lemma import_args_append [simp]: "import_args (xs @ ys) = import_args xs @ import_args ys"
  by (simp add: import_args_def)

lemma import_args_Cons [simp]:
  "import_args [] = []" "import_args (ev # tr) = import_arg ev @ import_args tr"
  by (simp_all add: import_args_def)

lemma decodes_append [simp]: "decodes (xs @ ys) = decodes xs + decodes ys"
  by (simp add: decodes_def)

lemma decodes_Cons [simp]:
  "decodes [] = 0" "decodes (ev # tr) = (if is_decode ev then 1 else 0) + decodes tr"
  by (simp_all add: decodes_def)

lemma compiles_append [simp]: "compiles (xs @ ys) = compiles xs + compiles ys"
  by (simp add: compiles_def)

lemma compiles_Cons [simp]:
  "compiles [] = 0" "compiles (ev # tr) = (if is_compile ev then 1 else 0) + compiles tr"
  by (simp_all add: compiles_def)

text \<open>The two memo expressions, in one equation each.\<close>

lemma bytes_or_dec_eq:
  "bytes_or_dec H (c, w) =
    (case bytes c of
       Some b \<Rightarrow> (Inr b, c, w)
     | None \<Rightarrow>
         (case dec H (d c) w of
            (Inl err, w1) \<Rightarrow> (Inl err, c, w1)
          | (Inr b, w1) \<Rightarrow> (Inr b, c\<lparr>bytes := Some b\<rparr>, w1)))"
  by (simp add: bytes_or_dec_Some bytes_or_dec_None split: option.split)

lemma mod_or_new_eq:
  "mod_or_new H (c, w) =
    (case mod' c of
       Some m \<Rightarrow> (Inr m, c, w)
     | None \<Rightarrow>
         (case bytes_or_dec H (c, w) of
            (Inl err, c1, w1) \<Rightarrow> (Inl err, c1, w1)
          | (Inr b, c1, w1) \<Rightarrow>
              (case new_Module H b w1 of
                 (Inl err, w2) \<Rightarrow> (Inl err, c1, w2)
               | (Inr m, w2) \<Rightarrow> (Inr m, c1\<lparr>mod' := Some m\<rparr>, w2))))"
  by (simp add: mod_or_new_Some mod_or_new_None split: option.split)

lemma bytes_or_dec_import_args:
  "bytes_or_dec H (c, w) = (r, c1, w1) \<Longrightarrow> import_args (trace w1) = import_args (trace w)"
  by (auto simp: bytes_or_dec_eq dec_eq split: option.splits sum.splits)

lemma mod_or_new_import_args:
  assumes "mod_or_new H (c, w) = (r, c1, w1)"
  shows "import_args (trace w1) = import_args (trace w)"
proof (cases "mod' c")
  case None
  obtain r' c' w' where bb: "bytes_or_dec H (c, w) = (r', c', w')"
    by (cases "bytes_or_dec H (c, w)")
  from bytes_or_dec_import_args [OF bb] assms None bb show ?thesis
    by (auto simp: mod_or_new_eq new_Module_eq split: sum.splits option.splits)
next
  case (Some m)
  with assms show ?thesis by (simp add: mod_or_new_eq)
qed

lemma InWasm_get_import_args:
  assumes "t c = INSTANCE" and "InWasm_get H (c, w) = (r, c1, w1)"
  shows "(import_args (trace w1) = import_args (trace w) \<and> (\<exists>err. r = Inl err)) \<or>
         import_args (trace w1) = import_args (trace w) @ [env (e c)]"
proof (cases "s c")
  case True
  obtain r' c' w' where mm: "mod_or_new H (c, w) = (r', c', w')"
    by (cases "mod_or_new H (c, w)")
  from mod_or_new_import_args [OF mm] assms True mm show ?thesis
    by (auto simp: get_INSTANCE_SYNC new_Instance_eq split: sum.splits option.splits)
next
  case False
  obtain r' c' w' where bb: "bytes_or_dec H (c, w) = (r', c', w')"
    by (cases "bytes_or_dec H (c, w)")
  from bytes_or_dec_import_args [OF bb] assms False bb show ?thesis
    by (auto simp: get_INSTANCE_ASYNC W_async_eq split: sum.splits option.splits)
qed

lemma EmWasm_get_import_args:
  assumes "t g = INSTANCE" and "EmWasm_get H g w = (r, w1)"
  shows "(import_args (trace w1) = import_args (trace w) \<and> (\<exists>err. r = Inl err)) \<or>
         import_args (trace w1) = import_args (trace w) @ [env (e g)]"
  using assms
  by (auto simp: EmWasm_get_def bindE_def returnE_def new_Module_eq new_Instance_eq W_async_eq
      split: sum.splits option.splits if_splits)

section \<open>The import argument\<close>

text \<open>
  C4, as amended. The import argument of every instantiation is \<open>_env(e)\<close>: it is
  \<open>undefined\<close> when \<open>e\<close> is falsy (missing, but also \<open>0\<close>, \<open>null\<close> or the empty
  string), and otherwise the object \<open>{ env: e }\<close>, whose one top-level key is the fixed
  name \<open>env\<close> and whose value is \<open>e\<close> itself. A getter for \<open>INSTANCE\<close>, of either
  loader and in either mode, hands exactly this argument to the one instantiation it
  issues, and it issues one whenever it returns.
\<close>

theorem import_argument:
  "(truthy (e c) \<longrightarrow> env (e c) = JObj [(''env'', e c)]) \<and>
   (\<not> truthy (e c) \<longrightarrow> env (e c) = JUndefined) \<and>
   (t c = INSTANCE \<longrightarrow> InWasm_get H (c, w) = (Inr v, c1, w1) \<longrightarrow>
      import_args (trace w1) = import_args (trace w) @ [env (e c)]) \<and>
   (t c = INSTANCE \<longrightarrow> InWasm_get H (c, w) = (Inl err, c1, w1) \<longrightarrow>
      import_args (trace w1) = import_args (trace w) \<or>
      import_args (trace w1) = import_args (trace w) @ [env (e c)]) \<and>
   (t g = INSTANCE \<longrightarrow> EmWasm_get H g w = (Inr v, w1) \<longrightarrow>
      import_args (trace w1) = import_args (trace w) @ [env (e g)]) \<and>
   (t g = INSTANCE \<longrightarrow> EmWasm_get H g w = (Inl err, w1) \<longrightarrow>
      import_args (trace w1) = import_args (trace w) \<or>
      import_args (trace w1) = import_args (trace w) @ [env (e g)])"
  using InWasm_get_import_args [of c H w "Inr v" c1 w1]
    InWasm_get_import_args [of c H w "Inl err" c1 w1]
    EmWasm_get_import_args [of g H w "Inr v" w1]
    EmWasm_get_import_args [of g H w "Inl err" w1]
  by (auto simp: env_def)

theorem import_argument_witness:
  "import_args (trace (snd (snd (InWasm_get node
      (fresh (compiled_def INSTANCE True (JObj [(''log'', JNum 1)])), w0))))) =
     [JObj [(''env'', JObj [(''log'', JNum 1)])]] \<and>
   import_args (trace (snd (snd (InWasm_get node
      (fresh (compiled_def INSTANCE True JUndefined), w0))))) = [JUndefined]"
proof -
  let ?c = "fresh (compiled_def INSTANCE True (JObj [(''log'', JNum 1)]))"
  let ?u = "fresh (compiled_def INSTANCE True JUndefined)"
  let ?g = "\<lparr>t = MODULE, s = True, d = ''AAAA'', e = JUndefined,
    em_bytes = \<lparr>bref = 0, bdata = [0, 0, 0]\<rparr>\<rparr>"
  obtain r c1 w1 where run: "InWasm_get node (?c, w0) = (r, c1, w1)"
    by (cases "InWasm_get node (?c, w0)")
  have "fst (InWasm_get node (?c, w0)) = Inr (Now (VInstance \<lparr>iref = 2,
      imodule = \<lparr>mref = 1, mcode = empty_module\<rparr>,
      iimports = JObj [(''env'', JObj [(''log'', JNum 1)])]\<rparr>))"
    by code_simp
  with run obtain v where ok: "InWasm_get node (?c, w0) = (Inr v, c1, w1)" by simp
  obtain r' c2 w2 where run': "InWasm_get node (?u, w0) = (r', c2, w2)"
    by (cases "InWasm_get node (?u, w0)")
  have "fst (InWasm_get node (?u, w0)) = Inr (Now (VInstance \<lparr>iref = 2,
      imodule = \<lparr>mref = 1, mcode = empty_module\<rparr>, iimports = JUndefined\<rparr>))"
    by code_simp
  with run' obtain v' where ok': "InWasm_get node (?u, w0) = (Inr v', c2, w2)" by simp
  have 1: "import_args (trace w1) = [JObj [(''env'', JObj [(''log'', JNum 1)])]]"
    using import_argument [of ?c node w0 v c1 w1 CaptureSignal ?g] ok
    by (simp add: fresh_def compiled_def_def w0_def)
  have 2: "import_args (trace w2) = [JUndefined]"
    using import_argument [of ?u node w0 v' c2 w2 CaptureSignal ?g] ok'
    by (simp add: fresh_def compiled_def_def w0_def)
  from 1 2 ok ok' show ?thesis by simp
qed

theorem import_key_counterexample:
  "import_args (trace (snd (snd (InWasm_get node
      (fresh (compiled_def INSTANCE True (JStr ''imports'')), w0))))) =
     [JObj [(''env'', JStr ''imports'')]]"
  by code_simp


section \<open>Bytes\<close>

lemma bytes_or_dec_ok:
  assumes "bytes_or_dec H (c, w) = (Inr b, c1, w1)"
  shows "c1 = c\<lparr>bytes := Some b\<rparr> \<and>
    (case bytes c of Some b' \<Rightarrow> b' = b \<and> w1 = w | None \<Rightarrow> dec H (d c) w = (Inr b, w1))"
proof (cases "bytes c")
  case None
  with assms show ?thesis
    by (auto simp: bytes_or_dec_eq split: prod.splits sum.splits)
next
  case (Some b')
  with assms have "b' = b" "c1 = c" "w1 = w" by (simp_all add: bytes_or_dec_eq)
  with Some show ?thesis by simp
qed

lemma dec_ok:
  "dec H x w = (Inr b, w1) \<Longrightarrow>
    bref b = next_ref w \<and> w1 = (log (Decode x) w)\<lparr>next_ref := Suc (next_ref w)\<rparr>"
  by (auto simp: dec_eq split: option.splits sum.splits)

lemma run_fixpoint:
  "InWasm_get H st = (r, st) \<Longrightarrow>
    InWasm_run H (replicate n Invoke) st = (replicate n (Returned r), st)"
  by (induction n) simp_all

lemma get_BYTES_ok:
  assumes "t c = BYTES" and "InWasm_get H (c, w) = (Inr r, c1, w1)"
  shows "\<exists>b. bytes_or_dec H (c, w) = (Inr b, c1, w1) \<and>
    r = (if s c then Now (VBytes b) else Future (Resolved (VBytes b)))"
  using assms by (auto simp: get_BYTES split: prod.splits sum.splits)

lemma get_BYTES_again:
  assumes "t c = BYTES" and "InWasm_get H (c, w) = (Inr r, c1, w1)"
  shows "InWasm_get H (c1, w1) = (Inr r, c1, w1)"
proof -
  from get_BYTES_ok [OF assms] obtain b where
    b: "bytes_or_dec H (c, w) = (Inr b, c1, w1)" and
    r: "r = (if s c then Now (VBytes b) else Future (Resolved (VBytes b)))"
    by blast
  from bytes_or_dec_ok [OF b] have c1: "c1 = c\<lparr>bytes := Some b\<rparr>" by simp
  then have "t c1 = BYTES" "s c1 = s c" "bytes c1 = Some b" using assms(1) by simp_all
  then show ?thesis
    using r by (simp add: get_BYTES bytes_or_dec_Some)
qed

lemma get_BYTES_decodes:
  assumes "t c = BYTES" and "InWasm_get H (c, w) = (Inr r, c1, w1)"
  shows "decodes (trace w1) \<le> decodes (trace w) + 1 \<and> (bytes c \<noteq> None \<longrightarrow> w1 = w)"
proof -
  from get_BYTES_ok [OF assms] obtain b where
    b: "bytes_or_dec H (c, w) = (Inr b, c1, w1)" by blast
  show ?thesis
  proof (cases "bytes c")
    case None
    with bytes_or_dec_ok [OF b] have "dec H (d c) w = (Inr b, w1)" by simp
    from dec_ok [OF this] None show ?thesis by simp
  next
    case (Some b')
    with bytes_or_dec_ok [OF b] show ?thesis by simp
  qed
qed

lemma dec_roundtrip:
  assumes "decoder_inverts H enc bs"
  shows "dec H (enc bs) w =
    (Inr \<lparr>bref = next_ref w, bdata = bs\<rparr>,
     (log (Decode (enc bs)) w)\<lparr>next_ref := Suc (next_ref w)\<rparr>)"
proof (cases "Buffer_from H")
  case None
  with assms have "atob H (enc bs) = Inr (map unat bs)" by (simp add: decoder_inverts_def)
  with None show ?thesis by (simp add: dec_eq comp_def)
next
  case (Some from_base64)
  with assms show ?thesis by (simp add: dec_eq decoder_inverts_def)
qed

lemma std_inverts:
  "decoder_inverts node b64_encode bs" "decoder_inverts browser b64_encode bs"
  by (simp_all add: decoder_inverts_def node_def browser_def std_from_base64_def std_atob_def
      b64_roundtrip)

text \<open>
  C3. For \<open>BYTES\<close>, in either mode, once the getter has returned a byte sequence every
  later invocation returns the very same object (the same reference, wrapped in a resolved
  promise in asynchronous mode) and leaves the closure and the world, hence the log,
  untouched: \<open>d\<close> is decoded at most once, and not at all when the bytes are already
  there. The first invocation of a new getter returns the bytes that \<open>_dec\<close> computes
  from \<open>d\<close>, which depend on \<open>d\<close> and the platform only; they are the bytes that
  were encoded whenever the platform's decoder inverts the encoder on them, as the standard
  base64 decoders of the example platforms do on every byte sequence. Without \<open>Buffer\<close>,
  \<open>_dec\<close> takes the string that \<open>atob\<close> returns and stores the code unit of each of
  its characters. The getter of \<open>EmWasm\<close> returns the bytes decoded at entry each time.
\<close>

theorem bytes_getter_decodes_once:
  "(t c = BYTES \<longrightarrow> InWasm_get H (c, w) = (Inr r, c1, w1) \<longrightarrow>
      InWasm_run H (replicate n Invoke) (c1, w1) = (replicate n (Returned (Inr r)), c1, w1) \<and>
      decodes (trace w1) \<le> decodes (trace w) + 1 \<and> (bytes c \<noteq> None \<longrightarrow> w1 = w)) \<and>
   (t c = BYTES \<longrightarrow> bytes c = None \<longrightarrow> decoder_inverts H enc bs \<longrightarrow> d c = enc bs \<longrightarrow>
      InWasm_get H (c, w) =
        (Inr (if s c then Now (VBytes \<lparr>bref = next_ref w, bdata = bs\<rparr>)
              else Future (Resolved (VBytes \<lparr>bref = next_ref w, bdata = bs\<rparr>))),
         c\<lparr>bytes := Some \<lparr>bref = next_ref w, bdata = bs\<rparr>\<rparr>,
         (log (Decode (d c)) w)\<lparr>next_ref := Suc (next_ref w)\<rparr>)) \<and>
   (Buffer_from H = None \<longrightarrow> dec H x w =
      (case atob H x of
         Inl err \<Rightarrow> (Inl err, log (Decode x) w)
       | Inr cs \<Rightarrow>
           (Inr \<lparr>bref = next_ref w, bdata = map of_nat cs\<rparr>,
            (log (Decode x) w)\<lparr>next_ref := Suc (next_ref w)\<rparr>))) \<and>
   (Buffer_from H = Some from_base64 \<longrightarrow> dec H x w =
      (Inr \<lparr>bref = next_ref w, bdata = from_base64 x\<rparr>,
       (log (Decode x) w)\<lparr>next_ref := Suc (next_ref w)\<rparr>)) \<and>
   decoder_inverts node b64_encode bs \<and> decoder_inverts browser b64_encode bs \<and>
   (t g = BYTES \<longrightarrow> EmWasm_get H g w =
      (Inr (if s g then Now (VBytes (em_bytes g)) else Future (Resolved (VBytes (em_bytes g)))), w))"
proof -
  have again: "t c = BYTES \<Longrightarrow> InWasm_get H (c, w) = (Inr r, c1, w1) \<Longrightarrow>
      InWasm_run H (replicate n Invoke) (c1, w1) = (replicate n (Returned (Inr r)), c1, w1)"
    using run_fixpoint [OF get_BYTES_again] by blast
  have first: "t c = BYTES \<Longrightarrow> bytes c = None \<Longrightarrow> decoder_inverts H enc bs \<Longrightarrow> d c = enc bs \<Longrightarrow>
      InWasm_get H (c, w) =
        (Inr (if s c then Now (VBytes \<lparr>bref = next_ref w, bdata = bs\<rparr>)
              else Future (Resolved (VBytes \<lparr>bref = next_ref w, bdata = bs\<rparr>))),
         c\<lparr>bytes := Some \<lparr>bref = next_ref w, bdata = bs\<rparr>\<rparr>,
         (log (Decode (d c)) w)\<lparr>next_ref := Suc (next_ref w)\<rparr>)"
    using dec_roundtrip [of H enc bs w] by (simp add: get_BYTES bytes_or_dec_eq)
  have fallback: "Buffer_from H = None \<Longrightarrow> dec H x w =
      (case atob H x of
         Inl err \<Rightarrow> (Inl err, log (Decode x) w)
       | Inr cs \<Rightarrow>
           (Inr \<lparr>bref = next_ref w, bdata = map of_nat cs\<rparr>,
            (log (Decode x) w)\<lparr>next_ref := Suc (next_ref w)\<rparr>))"
    by (simp add: dec_eq split: sum.split)
  have buffer: "Buffer_from H = Some from_base64 \<Longrightarrow> dec H x w =
      (Inr \<lparr>bref = next_ref w, bdata = from_base64 x\<rparr>,
       (log (Decode x) w)\<lparr>next_ref := Suc (next_ref w)\<rparr>)"
    by (simp add: dec_eq)
  have em: "t g = BYTES \<Longrightarrow> EmWasm_get H g w =
      (Inr (if s g then Now (VBytes (em_bytes g)) else Future (Resolved (VBytes (em_bytes g)))), w)"
    by (simp add: EmWasm_get_def returnE_def)
  show ?thesis
    using again get_BYTES_decodes [of c H w r c1 w1] first fallback buffer em
      std_inverts [of bs]
    by blast
qed

theorem bytes_getter_decodes_once_witness:
  "fst (InWasm_run browser [Invoke, Invoke, Invoke] (fresh (compiled_def BYTES False JUndefined), w0)) =
     [Returned (Inr (Future (Resolved (VBytes \<lparr>bref = 0, bdata = empty_module\<rparr>)))),
      Returned (Inr (Future (Resolved (VBytes \<lparr>bref = 0, bdata = empty_module\<rparr>)))),
      Returned (Inr (Future (Resolved (VBytes \<lparr>bref = 0, bdata = empty_module\<rparr>))))] \<and>
   decodes (trace (snd (snd (InWasm_run browser [Invoke, Invoke, Invoke]
     (fresh (compiled_def BYTES False JUndefined), w0))))) = 1"
proof -
  let ?c = "fresh (compiled_def BYTES False JUndefined)"
  let ?b = "\<lparr>bref = 0, bdata = empty_module\<rparr>"
  let ?r = "Future (Resolved (VBytes ?b))"
  let ?c1 = "?c\<lparr>bytes := Some ?b\<rparr>"
  let ?w1 = "(log (Decode (d ?c)) w0)\<lparr>next_ref := Suc (next_ref w0)\<rparr>"
  let ?g = "\<lparr>t = BYTES, s = True, d = ''AAAA'', e = JUndefined,
    em_bytes = \<lparr>bref = 0, bdata = [0, 0, 0]\<rparr>\<rparr>"
  note inst = bytes_getter_decodes_once [of ?c browser w0 ?r ?c1 ?w1 2 b64_encode empty_module
      "d ?c" std_from_base64 ?g]
  have enc: "d ?c = b64_encode empty_module" by code_simp
  have shape: "t ?c = BYTES" "bytes ?c = None" "\<not> s ?c" "next_ref w0 = 0"
    by (simp_all add: fresh_def compiled_def_def w0_def)
  from inst have inv: "decoder_inverts browser b64_encode empty_module" by blast
  from inst shape inv enc have first: "InWasm_get browser (?c, w0) = (Inr ?r, ?c1, ?w1)"
    by simp
  with inst shape have rest: "InWasm_run browser (replicate 2 Invoke) (?c1, ?w1) =
      (replicate 2 (Returned (Inr ?r)), ?c1, ?w1)"
    by blast
  have two: "replicate 2 Invoke = [Invoke, Invoke]" by (simp add: numeral_2_eq_2)
  have run: "InWasm_run browser [Invoke, Invoke, Invoke] (?c, w0) =
      ([Returned (Inr ?r), Returned (Inr ?r), Returned (Inr ?r)], ?c1, ?w1)"
    using first rest unfolding two by (simp add: numeral_2_eq_2)
  show ?thesis
    unfolding run by (simp add: w0_def)
qed


section \<open>Modules\<close>

lemma bytes_or_dec_frame:
  assumes "bytes_or_dec H (c, w) = (r, c1, w1)"
  shows "t c1 = t c \<and> s c1 = s c \<and> d c1 = d c \<and> e c1 = e c \<and> mod' c1 = mod' c \<and>
    next_ref w \<le> next_ref w1 \<and> pending w1 = pending w \<and> compiles (trace w1) = compiles (trace w) \<and>
    decodes (trace w1) \<le> decodes (trace w) + 1"
  using assms by (auto simp: bytes_or_dec_eq dec_eq split: option.splits sum.splits)

lemma mod_or_new_frame:
  assumes "mod_or_new H (c, w) = (r, c1, w1)"
  shows "t c1 = t c \<and> s c1 = s c \<and> d c1 = d c \<and> e c1 = e c \<and>
    next_ref w \<le> next_ref w1 \<and> pending w1 = pending w \<and>
    compiles (trace w1) \<le> compiles (trace w) + 1 \<and> decodes (trace w1) \<le> decodes (trace w) + 1"
proof (cases "mod' c")
  case None
  obtain r' c' w' where bb: "bytes_or_dec H (c, w) = (r', c', w')"
    by (cases "bytes_or_dec H (c, w)")
  from bytes_or_dec_frame [OF bb] assms None bb show ?thesis
    by (auto simp: mod_or_new_eq new_Module_eq split: sum.splits option.splits)
next
  case (Some m)
  with assms show ?thesis by (simp add: mod_or_new_eq)
qed

lemma mod_or_new_ok:
  assumes "mod_or_new H (c, w) = (Inr m, c1, w1)"
  shows "mod' c1 = Some m \<and>
    (case mod' c of
       Some m' \<Rightarrow> m' = m \<and> c1 = c \<and> w1 = w
     | None \<Rightarrow> compiles (trace w1) = compiles (trace w) + 1 \<and> next_ref w \<le> mref m \<and>
         mref m < next_ref w1 \<and> (\<exists>b. bytes c1 = Some b \<and> mcode m = bdata b))"
proof (cases "mod' c")
  case None
  obtain r' c' w' where bb: "bytes_or_dec H (c, w) = (r', c', w')"
    by (cases "bytes_or_dec H (c, w)")
  show ?thesis
  proof (cases r')
    case (Inl err)
    with assms None bb show ?thesis by (simp add: mod_or_new_eq)
  next
    case (Inr b)
    from bytes_or_dec_ok [of H c w b c' w'] bb Inr have c': "c' = c\<lparr>bytes := Some b\<rparr>" by simp
    from bytes_or_dec_frame [OF bb] assms None bb Inr c' show ?thesis
      by (auto simp: mod_or_new_eq new_Module_eq split: option.splits)
  qed
next
  case (Some m')
  with assms show ?thesis by (simp add: mod_or_new_eq)
qed

lemma get_MODULE_SYNC_ok:
  assumes "t c = MODULE" "s c" and "InWasm_get H (c, w) = (Inr r, c1, w1)"
  shows "\<exists>m. mod_or_new H (c, w) = (Inr m, c1, w1) \<and> r = Now (VModule m)"
  using assms by (auto simp: get_MODULE_SYNC split: prod.splits sum.splits)

lemma get_MODULE_SYNC_again:
  assumes "t c = MODULE" "s c" and "InWasm_get H (c, w) = (Inr r, c1, w1)"
  shows "InWasm_get H (c1, w1) = (Inr r, c1, w1) \<and> (\<exists>m. r = Now (VModule m) \<and> mod' c1 = Some m)"
proof -
  from get_MODULE_SYNC_ok [OF assms] obtain m where
    m: "mod_or_new H (c, w) = (Inr m, c1, w1)" and r: "r = Now (VModule m)"
    by blast
  from mod_or_new_ok [OF m] have cached: "mod' c1 = Some m" by simp
  from mod_or_new_frame [OF m] assms have "t c1 = MODULE" "s c1" by simp_all
  with cached r show ?thesis
    by (simp add: get_MODULE_SYNC mod_or_new_Some)
qed

lemma get_MODULE_SYNC_work:
  assumes "t c = MODULE" "s c" and "InWasm_get H (c, w) = (r, c1, w1)"
  shows "compiles (trace w1) \<le> compiles (trace w) + 1 \<and> decodes (trace w1) \<le> decodes (trace w) + 1 \<and>
    (mod' c \<noteq> None \<longrightarrow> w1 = w \<and> c1 = c)"
proof -
  obtain r' where m: "mod_or_new H (c, w) = (r', c1, w1)"
    using assms by (auto simp: get_MODULE_SYNC split: prod.splits sum.splits)
  from mod_or_new_frame [OF m] m show ?thesis
    by (auto simp: mod_or_new_eq)
qed

lemma get_MODULE_ASYNC_cached:
  assumes "t c = MODULE" "\<not> s c" "mod' c = Some m"
  shows "InWasm_run H (replicate n Invoke) (c, w) =
    (replicate n (Returned (Inr (Future (Resolved (VModule m))))), c, w)"
  using assms by (intro run_fixpoint) (simp add: get_MODULE_ASYNC)

lemma map_of_fresh:
  "fresh_ids w \<Longrightarrow> next_ref w \<le> k \<Longrightarrow> pending w1 = pending w @ [(k, x)] \<Longrightarrow>
    map_of (pending w1) k = Some x"
  by (auto simp: fresh_ids_def map_add_Some_iff map_of_eq_None_iff image_iff)

lemma get_MODULE_ASYNC_first:
  assumes "t c = MODULE" "\<not> s c" "mod' c = None" "fresh_ids w"
    and "InWasm_get H (c, w) = (Inr r, c1, w1)"
  shows "\<exists>k b. r = Future (Pending k) \<and> map_of (pending w1) k = Some (OpCompile b, ThenStoreModule) \<and>
    bytes c1 = Some b \<and> mod' c1 = None \<and> compiles (trace w1) = compiles (trace w) + 1 \<and>
    fresh_ids w1"
proof -
  obtain r' c' w' where bb: "bytes_or_dec H (c, w) = (r', c', w')"
    by (cases "bytes_or_dec H (c, w)")
  show ?thesis
  proof (cases r')
    case (Inl err)
    with assms bb show ?thesis by (simp add: get_MODULE_ASYNC)
  next
    case (Inr b)
    from bytes_or_dec_ok [of H c w b c' w'] bb Inr have c': "c' = c\<lparr>bytes := Some b\<rparr>" by simp
    from assms bb Inr have r: "r = Future (Pending (next_ref w'))" and c1: "c1 = c'"
      and w1: "w1 = (log (Async (OpCompile b)) w')\<lparr>next_ref := Suc (next_ref w'),
        pending := pending w' @ [(next_ref w', OpCompile b, ThenStoreModule)]\<rparr>"
      by (simp_all add: get_MODULE_ASYNC W_async_eq)
    from bytes_or_dec_frame [OF bb] have fr: "next_ref w \<le> next_ref w'" "pending w' = pending w"
      "compiles (trace w') = compiles (trace w)" by simp_all
    have look: "map_of (pending w1) (next_ref w') = Some (OpCompile b, ThenStoreModule)"
      using assms(4) fr w1 by (intro map_of_fresh [of w]) simp_all
    have "fresh_ids w1"
      using assms(4) fr w1 by (auto simp: fresh_ids_def)
    with look r c1 c' w1 fr assms(3) show ?thesis by simp
  qed
qed

lemma complete_compile:
  "complete H (OpCompile b) w = (Inr v, w1) \<Longrightarrow>
    v = VModule \<lparr>mref = next_ref w, mcode = bdata b\<rparr> \<and> w1 = w\<lparr>next_ref := Suc (next_ref w)\<rparr>"
  by (auto simp: complete_def alloc_def split: option.splits)

lemma settle_compile:
  assumes "map_of (pending w) k = Some (OpCompile b, ThenStoreModule)"
    and "settle H k (c, w) = (Some (Inr v), c1, w1)"
  shows "\<exists>m. v = VModule m \<and> c1 = c\<lparr>mod' := Some m\<rparr> \<and> mcode m = bdata b \<and> mref m = next_ref w \<and>
    compiles (trace w1) = compiles (trace w) \<and> map_of (pending w1) k = None"
proof -
  let ?w = "log (Settle k) (w\<lparr>pending := filter (\<lambda>p. fst p \<noteq> k) (pending w)\<rparr>)"
  obtain r w' where cc: "complete H (OpCompile b) ?w = (r, w')"
    by (cases "complete H (OpCompile b) ?w")
  show ?thesis
  proof (cases r)
    case (Inl err)
    with assms cc show ?thesis by (simp add: settle_def)
  next
    case (Inr v')
    from complete_compile [of H b ?w v' w'] cc Inr
    have v': "v' = VModule \<lparr>mref = next_ref w, mcode = bdata b\<rparr>"
      and w': "w' = ?w\<lparr>next_ref := Suc (next_ref w)\<rparr>" by simp_all
    from assms cc Inr v' have "v = v'" "w1 = w'"
      "c1 = c\<lparr>mod' := Some \<lparr>mref = next_ref w, mcode = bdata b\<rparr>\<rparr>"
      by (simp_all add: settle_def)
    with v' w' show ?thesis
      by (auto simp: log_def map_of_eq_None_iff)
  qed
qed

text \<open>No getter and no callback assigns to \<open>t\<close>, \<open>s\<close>, \<open>d\<close> or \<open>e\<close>.\<close>

lemma InWasm_get_frame:
  assumes "InWasm_get H (c, w) = (r, c1, w1)"
  shows "t c1 = t c \<and> s c1 = s c \<and> d c1 = d c \<and> e c1 = e c"
proof -
  obtain rb cb wb where bb: "bytes_or_dec H (c, w) = (rb, cb, wb)"
    by (cases "bytes_or_dec H (c, w)")
  obtain rm cm wm where mm: "mod_or_new H (c, w) = (rm, cm, wm)"
    by (cases "mod_or_new H (c, w)")
  note fb = bytes_or_dec_frame [OF bb] and fm = mod_or_new_frame [OF mm]
  show ?thesis
  proof (cases "t c")
    case BYTES
    with assms bb fb show ?thesis
      by (cases rb) (auto simp: get_BYTES)
  next
    case MODULE
    show ?thesis
    proof (cases "s c")
      case True
      with assms MODULE mm fm show ?thesis
        by (cases rm) (auto simp: get_MODULE_SYNC)
    next
      case False
      with assms MODULE bb fb show ?thesis
        by (cases rb; cases "mod' c") (auto simp: get_MODULE_ASYNC W_async_eq)
    qed
  next
    case INSTANCE
    show ?thesis
    proof (cases "s c")
      case True
      with assms INSTANCE mm fm show ?thesis
        by (cases rm) (auto simp: get_INSTANCE_SYNC split: prod.splits sum.splits)
    next
      case False
      with assms INSTANCE bb fb show ?thesis
        by (cases rb; cases "mod' c") (auto simp: get_INSTANCE_ASYNC W_async_eq)
    qed
  qed
qed

lemma settle_frame:
  assumes "settle H k (c, w) = (r, c1, w1)"
  shows "t c1 = t c \<and> s c1 = s c \<and> d c1 = d c \<and> e c1 = e c \<and> bytes c1 = bytes c"
  using assms
  by (auto simp: settle_def split: option.splits prod.splits sum.splits)


text \<open>
  C2, as amended. In \<open>InWasm\<close>, synchronous mode: once the getter for \<open>MODULE\<close> has
  returned a module, every later invocation returns the same module and changes neither the
  closure nor the world, so the bytes are decoded and compiled at most once. In
  asynchronous mode: an invocation made while a module is stored returns it in a resolved
  promise and does nothing else; an invocation made while none is stored starts a
  compilation of its own and returns a pending promise; and when a compilation resolves,
  its callback stores the module it produced, over whatever was stored before. So the
  bytes are compiled once only if no invocation is made between the first one and the
  moment its compilation resolves. The getter of \<open>EmWasm\<close> keeps no module: each
  invocation compiles the bytes decoded at entry into a new one.
\<close>

theorem module_compiled_once:
  "(t c = MODULE \<longrightarrow> s c \<longrightarrow> InWasm_get H (c, w) = (Inr r, c1, w1) \<longrightarrow>
      (\<exists>m. r = Now (VModule m) \<and> mod' c1 = Some m) \<and>
      InWasm_run H (replicate n Invoke) (c1, w1) = (replicate n (Returned (Inr r)), c1, w1) \<and>
      compiles (trace w1) \<le> compiles (trace w) + 1 \<and>
      decodes (trace w1) \<le> decodes (trace w) + 1) \<and>
   (t c = MODULE \<longrightarrow> \<not> s c \<longrightarrow> mod' c = Some m \<longrightarrow>
      InWasm_run H (replicate n Invoke) (c, w) =
        (replicate n (Returned (Inr (Future (Resolved (VModule m))))), c, w)) \<and>
   (t c = MODULE \<longrightarrow> \<not> s c \<longrightarrow> mod' c = None \<longrightarrow> fresh_ids w \<longrightarrow>
    InWasm_get H (c, w) = (Inr r, c1, w1) \<longrightarrow>
      (\<exists>k b. r = Future (Pending k) \<and>
         map_of (pending w1) k = Some (OpCompile b, ThenStoreModule) \<and>
         bytes c1 = Some b \<and> mod' c1 = None \<and>
         compiles (trace w1) = compiles (trace w) + 1 \<and> fresh_ids w1)) \<and>
   (map_of (pending w) k = Some (OpCompile b, ThenStoreModule) \<longrightarrow>
    settle H k (c, w) = (Some (Inr v), c1, w1) \<longrightarrow>
      (\<exists>m. v = VModule m \<and> c1 = c\<lparr>mod' := Some m\<rparr> \<and> mcode m = bdata b \<and>
         mref m = next_ref w \<and> compiles (trace w1) = compiles (trace w))) \<and>
   (t g = MODULE \<longrightarrow> s g \<longrightarrow> EmWasm_get H g w = (Inr r, w1) \<longrightarrow>
      r = Now (VModule \<lparr>mref = next_ref w, mcode = bdata (em_bytes g)\<rparr>) \<and>
      compiles (trace w1) = compiles (trace w) + 1) \<and>
   (t g = MODULE \<longrightarrow> \<not> s g \<longrightarrow> EmWasm_get H g w =
      (Inr (Future (Pending (next_ref w))),
       (log (Async (OpCompile (em_bytes g))) w)\<lparr>next_ref := Suc (next_ref w),
          pending := pending w @ [(next_ref w, OpCompile (em_bytes g), NoThen)]\<rparr>))"
proof -
  have em_sync: "t g = MODULE \<Longrightarrow> s g \<Longrightarrow> EmWasm_get H g w = (Inr r, w1) \<Longrightarrow>
      r = Now (VModule \<lparr>mref = next_ref w, mcode = bdata (em_bytes g)\<rparr>) \<and>
      compiles (trace w1) = compiles (trace w) + 1"
    by (auto simp: EmWasm_get_def bindE_def returnE_def new_Module_eq split: option.splits)
  have em_async: "t g = MODULE \<Longrightarrow> \<not> s g \<Longrightarrow> EmWasm_get H g w =
      (Inr (Future (Pending (next_ref w))),
       (log (Async (OpCompile (em_bytes g))) w)\<lparr>next_ref := Suc (next_ref w),
          pending := pending w @ [(next_ref w, OpCompile (em_bytes g), NoThen)]\<rparr>)"
    by (simp add: EmWasm_get_def W_async_eq)
  have sync: "t c = MODULE \<Longrightarrow> s c \<Longrightarrow> InWasm_get H (c, w) = (Inr r, c1, w1) \<Longrightarrow>
      (\<exists>m. r = Now (VModule m) \<and> mod' c1 = Some m) \<and>
      InWasm_run H (replicate n Invoke) (c1, w1) = (replicate n (Returned (Inr r)), c1, w1) \<and>
      compiles (trace w1) \<le> compiles (trace w) + 1 \<and>
      decodes (trace w1) \<le> decodes (trace w) + 1"
    using get_MODULE_SYNC_again [of c H w r c1 w1] get_MODULE_SYNC_work [of c H w "Inr r" c1 w1]
      run_fixpoint [of H "(c1, w1)" "Inr r" n]
    by simp
  have settled: "map_of (pending w) k = Some (OpCompile b, ThenStoreModule) \<Longrightarrow>
    settle H k (c, w) = (Some (Inr v), c1, w1) \<Longrightarrow>
      (\<exists>m. v = VModule m \<and> c1 = c\<lparr>mod' := Some m\<rparr> \<and> mcode m = bdata b \<and>
         mref m = next_ref w \<and> compiles (trace w1) = compiles (trace w))"
    using settle_compile [of w k b H c v c1 w1] by blast
  show ?thesis
    using sync settled em_sync em_async get_MODULE_ASYNC_cached [of c m H n w]
      get_MODULE_ASYNC_first [of c w H r c1 w1]
    by blast
qed


theorem module_compiled_once_witness:
  "fst (InWasm_run node [Invoke, Invoke, Invoke] (fresh (compiled_def MODULE True JUndefined), w0)) =
     [Returned (Inr (Now (VModule \<lparr>mref = 1, mcode = empty_module\<rparr>))),
      Returned (Inr (Now (VModule \<lparr>mref = 1, mcode = empty_module\<rparr>))),
      Returned (Inr (Now (VModule \<lparr>mref = 1, mcode = empty_module\<rparr>)))] \<and>
   fst (InWasm_run node [Invoke, Resolve 1, Invoke, Invoke]
      (fresh (compiled_def MODULE False JUndefined), w0)) =
     [Returned (Inr (Future (Pending 1))),
      Outcome (Some (Inr (VModule \<lparr>mref = 2, mcode = empty_module\<rparr>))),
      Returned (Inr (Future (Resolved (VModule \<lparr>mref = 2, mcode = empty_module\<rparr>)))),
      Returned (Inr (Future (Resolved (VModule \<lparr>mref = 2, mcode = empty_module\<rparr>))))]"
proof -
  let ?cs = "fresh (compiled_def MODULE True JUndefined)"
  let ?ca = "fresh (compiled_def MODULE False JUndefined)"
  let ?m1 = "\<lparr>mref = 1, mcode = empty_module\<rparr>"
  let ?m2 = "\<lparr>mref = 2, mcode = empty_module\<rparr>"
  let ?b0 = "\<lparr>bref = 0, bdata = empty_module\<rparr>"
  let ?g = "\<lparr>t = BYTES, s = True, d = ''AGFzbQEAAAA='', e = JUndefined, em_bytes = ?b0\<rparr>"
  have two: "replicate 2 Invoke = [Invoke, Invoke]" by (simp add: numeral_2_eq_2)
  have shape: "t ?cs = MODULE" "s ?cs" "t ?ca = MODULE" "\<not> s ?ca" "mod' ?ca = None" "fresh_ids w0"
    by (simp_all add: fresh_def compiled_def_def fresh_ids_def w0_def)
  \<comment> \<open>synchronous\<close>
  obtain r c1 w1 where run: "InWasm_get node (?cs, w0) = (r, c1, w1)"
    by (cases "InWasm_get node (?cs, w0)")
  have "fst (InWasm_get node (?cs, w0)) = Inr (Now (VModule ?m1))" by code_simp
  with run have first: "InWasm_get node (?cs, w0) = (Inr (Now (VModule ?m1)), c1, w1)" by simp
  from module_compiled_once [of ?cs node w0 "Now (VModule ?m1)" c1 w1 2 ?m1 0 ?b0 "VModule ?m1" ?g]
    shape first
  have "InWasm_run node (replicate 2 Invoke) (c1, w1) =
      (replicate 2 (Returned (Inr (Now (VModule ?m1)))), c1, w1)"
    by simp
  with first have sync: "fst (InWasm_run node [Invoke, Invoke, Invoke] (?cs, w0)) =
      [Returned (Inr (Now (VModule ?m1))), Returned (Inr (Now (VModule ?m1))),
       Returned (Inr (Now (VModule ?m1)))]"
    unfolding two by (simp add: numeral_2_eq_2)
  \<comment> \<open>asynchronous\<close>
  obtain ra c2 w2 where runa: "InWasm_get node (?ca, w0) = (ra, c2, w2)"
    by (cases "InWasm_get node (?ca, w0)")
  have "fst (InWasm_get node (?ca, w0)) = Inr (Future (Pending 1))" by code_simp
  with runa have firsta: "InWasm_get node (?ca, w0) = (Inr (Future (Pending 1)), c2, w2)" by simp
  from module_compiled_once [of ?ca node w0 "Future (Pending 1)" c2 w2 0 ?m1 0 ?b0 "VModule ?m1" ?g]
    shape firsta
  obtain b where task: "map_of (pending w2) 1 = Some (OpCompile b, ThenStoreModule)"
    by auto
  obtain o3 c3 w3 where runs: "settle node 1 (c2, w2) = (o3, c3, w3)"
    by (cases "settle node 1 (c2, w2)")
  have "fst (settle node 1 (snd (InWasm_get node (?ca, w0)))) = Some (Inr (VModule ?m2))"
    by code_simp
  with runa runs have settled: "settle node 1 (c2, w2) = (Some (Inr (VModule ?m2)), c3, w3)"
    by simp
  from module_compiled_once [of c2 node w2 "Now (VModule ?m1)" c3 w3 0 ?m1 1 b "VModule ?m2" ?g]
    task settled
  have c3: "c3 = c2\<lparr>mod' := Some ?m2\<rparr>"
    by simp
  have keep: "t c2 = MODULE" "\<not> s c2"
    using InWasm_get_frame [OF firsta] shape by simp_all
  with c3 have "t c3 = MODULE" "\<not> s c3" "mod' c3 = Some ?m2" by simp_all
  with module_compiled_once [of c3 node w3 "Now (VModule ?m1)" c3 w3 2 ?m2 0 ?b0 "VModule ?m1" ?g]
  have "InWasm_run node (replicate 2 Invoke) (c3, w3) =
      (replicate 2 (Returned (Inr (Future (Resolved (VModule ?m2))))), c3, w3)"
    by simp
  with firsta settled have async: "fst (InWasm_run node [Invoke, Resolve 1, Invoke, Invoke] (?ca, w0)) =
     [Returned (Inr (Future (Pending 1))), Outcome (Some (Inr (VModule ?m2))),
      Returned (Inr (Future (Resolved (VModule ?m2)))),
      Returned (Inr (Future (Resolved (VModule ?m2))))]"
    unfolding two by (simp add: numeral_2_eq_2)
  from sync async show ?thesis by simp
qed


theorem module_recompiled_counterexample:
  "EmWasm_session node (compiled_def MODULE True JUndefined) [Invoke, Invoke] =
     ([Returned (Inr (Now (VModule \<lparr>mref = 1, mcode = empty_module\<rparr>))),
       Returned (Inr (Now (VModule \<lparr>mref = 2, mcode = empty_module\<rparr>)))],
      [Decode ''AGFzbQEAAAA='', NewModule \<lparr>bref = 0, bdata = empty_module\<rparr>,
       NewModule \<lparr>bref = 0, bdata = empty_module\<rparr>]) \<and>
   InWasm_session node (compiled_def MODULE False JUndefined)
      [Invoke, Invoke, Resolve 1, Invoke, Resolve 2, Invoke] =
     ([Returned (Inr (Future (Pending 1))), Returned (Inr (Future (Pending 2))),
       Outcome (Some (Inr (VModule \<lparr>mref = 3, mcode = empty_module\<rparr>))),
       Returned (Inr (Future (Resolved (VModule \<lparr>mref = 3, mcode = empty_module\<rparr>)))),
       Outcome (Some (Inr (VModule \<lparr>mref = 4, mcode = empty_module\<rparr>))),
       Returned (Inr (Future (Resolved (VModule \<lparr>mref = 4, mcode = empty_module\<rparr>))))],
      [Decode ''AGFzbQEAAAA='', Async (OpCompile \<lparr>bref = 0, bdata = empty_module\<rparr>),
       Async (OpCompile \<lparr>bref = 0, bdata = empty_module\<rparr>), Settle 1, Settle 2])"
  by code_simp


section \<open>Instances, synchronously\<close>

lemma get_INSTANCE_SYNC_cached:
  assumes "t c = INSTANCE" "s c" "mod' c = Some m"
  shows "InWasm_get H (c, w) =
    (case new_Instance H m (env (e c)) w of
       (Inl err, w1) \<Rightarrow> (Inl err, c, w1)
     | (Inr i, w1) \<Rightarrow> (Inr (Now (VInstance i)), c, w1))"
  using assms by (simp add: get_INSTANCE_SYNC mod_or_new_Some)

lemma new_Instance_ok:
  "new_Instance H m imp w = (Inr i, w1) \<Longrightarrow>
    i = \<lparr>iref = next_ref w, imodule = m, iimports = imp\<rparr> \<and>
    w1 = (log (NewInstance m imp) w)\<lparr>next_ref := Suc (next_ref w)\<rparr>"
  by (auto simp: new_Instance_eq split: option.splits)

lemma get_INSTANCE_SYNC_ok:
  assumes "t c = INSTANCE" "s c" and "InWasm_get H (c, w) = (Inr r, c1, w1)"
  shows "(\<exists>i. r = Now (VInstance i) \<and> mod' c1 = Some (imodule i) \<and> iimports i = env (e c) \<and>
      next_ref w \<le> iref i \<and> iref i < next_ref w1) \<and>
    compiles (trace w1) = compiles (trace w) + (if mod' c = None then 1 else 0) \<and>
    (mod' c \<noteq> None \<longrightarrow> mod' c1 = mod' c)"
proof -
  obtain rm cm wm where mm: "mod_or_new H (c, w) = (rm, cm, wm)"
    by (cases "mod_or_new H (c, w)")
  show ?thesis
  proof (cases rm)
    case (Inl err)
    with assms mm show ?thesis by (simp add: get_INSTANCE_SYNC)
  next
    case (Inr m)
    obtain ri wi where ii: "new_Instance H m (env (e c)) wm = (ri, wi)"
      by (cases "new_Instance H m (env (e c)) wm")
    show ?thesis
    proof (cases ri)
      case (Inl err)
      with assms mm Inr ii show ?thesis by (simp add: get_INSTANCE_SYNC)
    next
      case (Inr i)
      from assms mm \<open>rm = Inr m\<close> ii Inr
      have r: "r = Now (VInstance i)" and c1: "c1 = cm" and w1: "w1 = wi"
        by (simp_all add: get_INSTANCE_SYNC)
      from new_Instance_ok [of H m "env (e c)" wm i wi] ii Inr
      have i: "i = \<lparr>iref = next_ref wm, imodule = m, iimports = env (e c)\<rparr>"
        and wi: "wi = (log (NewInstance m (env (e c))) wm)\<lparr>next_ref := Suc (next_ref wm)\<rparr>"
        by simp_all
      from mod_or_new_ok [of H c w m cm wm] mm \<open>rm = Inr m\<close>
      have ok: "mod' cm = Some m"
        "case mod' c of Some m' \<Rightarrow> m' = m \<and> cm = c \<and> wm = w
         | None \<Rightarrow> compiles (trace wm) = compiles (trace w) + 1 \<and> next_ref w \<le> mref m \<and>
             mref m < next_ref wm \<and> (\<exists>b. bytes cm = Some b \<and> mcode m = bdata b)"
        by simp_all
      from mod_or_new_frame [OF mm] have mono: "next_ref w \<le> next_ref wm" by simp
      show ?thesis
        using r c1 w1 i wi ok mono by (cases "mod' c") auto
    qed
  qed
qed

lemma InWasm_get_next_ref:
  assumes "InWasm_get H (c, w) = (r, c1, w1)"
  shows "next_ref w \<le> next_ref w1"
proof -
  obtain rb cb wb where bb: "bytes_or_dec H (c, w) = (rb, cb, wb)"
    by (cases "bytes_or_dec H (c, w)")
  obtain rm cm wm where mm: "mod_or_new H (c, w) = (rm, cm, wm)"
    by (cases "mod_or_new H (c, w)")
  note fb = bytes_or_dec_frame [OF bb] and fm = mod_or_new_frame [OF mm]
  show ?thesis
  proof (cases "t c")
    case BYTES
    with assms bb fb show ?thesis
      by (cases rb) (auto simp: get_BYTES)
  next
    case MODULE
    show ?thesis
    proof (cases "s c")
      case True
      with assms MODULE mm fm show ?thesis
        by (cases rm) (auto simp: get_MODULE_SYNC)
    next
      case False
      with assms MODULE bb fb show ?thesis
        by (cases rb; cases "mod' c") (auto simp: get_MODULE_ASYNC W_async_eq)
    qed
  next
    case INSTANCE
    show ?thesis
    proof (cases "s c")
      case True
      with assms INSTANCE mm fm show ?thesis
        by (cases rm) (auto simp: get_INSTANCE_SYNC new_Instance_eq split: option.splits)
    next
      case False
      with assms INSTANCE bb fb show ?thesis
        by (cases rb; cases "mod' c") (auto simp: get_INSTANCE_ASYNC W_async_eq)
    qed
  qed
qed

lemma returned_refs_distinct: "distinct (returned_refs x)"
  by (cases x rule: returned_refs.cases) simp_all

lemma refs_step:
  fixes lo mid hi :: nat
  assumes "lo \<le> mid" "mid \<le> hi" "distinct (concat (map returned_refs ys))"
    and "\<forall>x \<in> set (concat (map returned_refs ys)). mid \<le> x \<and> x < hi"
    and "\<forall>x \<in> set (returned_refs y). lo \<le> x \<and> x < mid"
  shows "lo \<le> hi \<and> distinct (concat (map returned_refs (y # ys))) \<and>
    (\<forall>x \<in> set (concat (map returned_refs (y # ys))). lo \<le> x \<and> x < hi)"
proof -
  have disj: "set (returned_refs y) \<inter> set (concat (map returned_refs ys)) = {}"
  proof (rule ccontr)
    assume "set (returned_refs y) \<inter> set (concat (map returned_refs ys)) \<noteq> {}"
    then obtain x where "x \<in> set (returned_refs y)" "x \<in> set (concat (map returned_refs ys))"
      by blast
    with assms(4,5) have "x < mid" "mid \<le> x" by blast+
    then show False by simp
  qed
  have bounds: "\<forall>x \<in> set (concat (map returned_refs (y # ys))). lo \<le> x \<and> x < hi"
  proof
    fix x assume "x \<in> set (concat (map returned_refs (y # ys)))"
    then consider "x \<in> set (returned_refs y)" | "x \<in> set (concat (map returned_refs ys))"
      by auto
    then show "lo \<le> x \<and> x < hi"
    proof cases
      case 1
      with assms(5) have "lo \<le> x" "x < mid" by blast+
      with assms(2) show ?thesis by simp
    next
      case 2
      with assms(4) have "mid \<le> x" "x < hi" by blast+
      with assms(1) show ?thesis by simp
    qed
  qed
  from assms(1,2) have "lo \<le> hi" by simp
  moreover have "distinct (concat (map returned_refs (y # ys)))"
    using disj assms(3) returned_refs_distinct [of y] by simp
  ultimately show ?thesis using bounds by blast
qed

lemma sync_instance_refs:
  "t c = INSTANCE \<Longrightarrow> s c \<Longrightarrow> InWasm_run H (replicate n Invoke) (c, w) = (xs, c1, w1) \<Longrightarrow>
    next_ref w \<le> next_ref w1 \<and> distinct (concat (map returned_refs xs)) \<and>
    (\<forall>x \<in> set (concat (map returned_refs xs)). next_ref w \<le> x \<and> x < next_ref w1)"
proof (induction n arbitrary: c w xs c1 w1)
  case 0
  then show ?case by simp
next
  case (Suc n)
  obtain r c' w' where g: "InWasm_get H (c, w) = (r, c', w')"
    by (cases "InWasm_get H (c, w)")
  obtain ys c'' w'' where rest: "InWasm_run H (replicate n Invoke) (c', w') = (ys, c'', w'')"
    by (cases "InWasm_run H (replicate n Invoke) (c', w')")
  from Suc.prems(3) g rest have xs: "xs = Returned r # ys" and w1: "w1 = w''"
    by simp_all
  from InWasm_get_frame [OF g] Suc.prems have "t c' = INSTANCE" "s c'" by simp_all
  from Suc.IH [OF this rest]
  have ih: "next_ref w' \<le> next_ref w''" "distinct (concat (map returned_refs ys))"
    "\<forall>x \<in> set (concat (map returned_refs ys)). next_ref w' \<le> x \<and> x < next_ref w''"
    by simp_all
  have mono: "next_ref w \<le> next_ref w'" by (rule InWasm_get_next_ref [OF g])
  have head: "\<forall>x \<in> set (returned_refs (Returned r)). next_ref w \<le> x \<and> x < next_ref w'"
  proof (cases r)
    case (Inl err)
    then show ?thesis by simp
  next
    case (Inr v)
    with get_INSTANCE_SYNC_ok [of c H w v c' w'] Suc.prems(1,2) g
    obtain i where "v = Now (VInstance i)" "next_ref w \<le> iref i" "iref i < next_ref w'"
      by blast
    with Inr show ?thesis by simp
  qed
  show ?case
    unfolding xs w1 by (rule refs_step [OF mono ih head])
qed

section \<open>The getters of EmWasm for instances\<close>

lemma EmWasm_get_INSTANCE_SYNC:
  assumes "t g = INSTANCE" "s g" and "EmWasm_get H g w = (Inr r, w1)"
  shows "(\<exists>i. r = Now (VInstance i) \<and>
      imodule i = \<lparr>mref = next_ref w, mcode = bdata (em_bytes g)\<rparr> \<and>
      iimports i = env (e g) \<and> iref i = Suc (next_ref w)) \<and>
    compiles (trace w1) = compiles (trace w) + 1 \<and> next_ref w1 = Suc (Suc (next_ref w))"
  using assms
  by (auto simp: EmWasm_get_def bindE_def returnE_def new_Module_eq new_Instance_eq
      split: option.splits)

lemma EmWasm_get_next_ref:
  "EmWasm_get H g w = (r, w1) \<Longrightarrow> next_ref w \<le> next_ref w1"
  by (auto simp: EmWasm_get_def bindE_def returnE_def new_Module_eq new_Instance_eq W_async_eq
      split: option.splits if_splits)

lemma em_sync_instance_refs:
  "t g = INSTANCE \<Longrightarrow> s g \<Longrightarrow> EmWasm_run H g (replicate n Invoke) w = (xs, w1) \<Longrightarrow>
    next_ref w \<le> next_ref w1 \<and> distinct (concat (map returned_refs xs)) \<and>
    (\<forall>x \<in> set (concat (map returned_refs xs)). next_ref w \<le> x \<and> x < next_ref w1)"
proof (induction n arbitrary: w xs w1)
  case 0
  then show ?case by simp
next
  case (Suc n)
  obtain r w' where g: "EmWasm_get H g w = (r, w')"
    by (cases "EmWasm_get H g w")
  obtain ys w'' where rest: "EmWasm_run H g (replicate n Invoke) w' = (ys, w'')"
    by (cases "EmWasm_run H g (replicate n Invoke) w'")
  from Suc.prems(3) g rest have xs: "xs = Returned r # ys" and w1: "w1 = w''"
    by simp_all
  from Suc.IH [OF Suc.prems(1,2) rest]
  have ih: "next_ref w' \<le> next_ref w''" "distinct (concat (map returned_refs ys))"
    "\<forall>x \<in> set (concat (map returned_refs ys)). next_ref w' \<le> x \<and> x < next_ref w''"
    by simp_all
  have mono: "next_ref w \<le> next_ref w'" by (rule EmWasm_get_next_ref [OF g])
  have head: "\<forall>x \<in> set (returned_refs (Returned r)). next_ref w \<le> x \<and> x < next_ref w'"
  proof (cases r)
    case (Inl err)
    then show ?thesis by simp
  next
    case (Inr v)
    with EmWasm_get_INSTANCE_SYNC [of g H w v w'] Suc.prems(1,2) g
    obtain i where "v = Now (VInstance i)" "iref i = Suc (next_ref w)"
      "next_ref w' = Suc (Suc (next_ref w))"
      by blast
    with Inr show ?thesis by simp
  qed
  show ?case
    unfolding xs w1 by (rule refs_step [OF mono ih head])
qed

text \<open>
  C7, as amended. In \<open>InWasm\<close>, the synchronous getter for \<open>INSTANCE\<close> constructs a
  new instance on each invocation from the stored module: with a module stored it does
  nothing but \<open>new W.Instance\<close> on it; with none stored it first compiles one from the
  stored bytes (decoding them if need be) and stores it, which is the only case in which it
  compiles. In \<open>EmWasm\<close> nothing is stored: each invocation compiles a new module from
  the bytes decoded at entry and constructs the instance from that. In both, an instance
  gets a reference that no object had before, so no run of invocations returns an instance
  twice.
\<close>

theorem sync_instance_fresh:
  "(t c = INSTANCE \<longrightarrow> s c \<longrightarrow> mod' c = Some m \<longrightarrow> InWasm_get H (c, w) =
      (case new_Instance H m (env (e c)) w of
         (Inl err, w1) \<Rightarrow> (Inl err, c, w1)
       | (Inr i, w1) \<Rightarrow> (Inr (Now (VInstance i)), c, w1))) \<and>
   (t c = INSTANCE \<longrightarrow> s c \<longrightarrow> InWasm_get H (c, w) = (Inr r, c1, w1) \<longrightarrow>
      (\<exists>i. r = Now (VInstance i) \<and> mod' c1 = Some (imodule i) \<and> iimports i = env (e c) \<and>
         next_ref w \<le> iref i \<and> iref i < next_ref w1) \<and>
      compiles (trace w1) = compiles (trace w) + (if mod' c = None then 1 else 0) \<and>
      (mod' c \<noteq> None \<longrightarrow> mod' c1 = mod' c)) \<and>
   (t c = INSTANCE \<longrightarrow> s c \<longrightarrow>
      distinct (concat (map returned_refs (fst (InWasm_run H (replicate n Invoke) (c, w)))))) \<and>
   (t g = INSTANCE \<longrightarrow> s g \<longrightarrow> EmWasm_get H g w = (Inr r, w1) \<longrightarrow>
      (\<exists>i. r = Now (VInstance i) \<and>
         imodule i = \<lparr>mref = next_ref w, mcode = bdata (em_bytes g)\<rparr> \<and>
         iimports i = env (e g) \<and> iref i = Suc (next_ref w)) \<and>
      compiles (trace w1) = compiles (trace w) + 1) \<and>
   (t g = INSTANCE \<longrightarrow> s g \<longrightarrow>
      distinct (concat (map returned_refs (fst (EmWasm_run H g (replicate n Invoke) w)))))"
proof -
  have once: "t c = INSTANCE \<Longrightarrow> s c \<Longrightarrow>
      distinct (concat (map returned_refs (fst (InWasm_run H (replicate n Invoke) (c, w)))))"
    using sync_instance_refs [of c H n w] by (cases "InWasm_run H (replicate n Invoke) (c, w)") simp
  have em_once: "t g = INSTANCE \<Longrightarrow> s g \<Longrightarrow>
      distinct (concat (map returned_refs (fst (EmWasm_run H g (replicate n Invoke) w))))"
    using em_sync_instance_refs [of g H n w] by (cases "EmWasm_run H g (replicate n Invoke) w") simp
  have em: "t g = INSTANCE \<Longrightarrow> s g \<Longrightarrow> EmWasm_get H g w = (Inr r, w1) \<Longrightarrow>
      (\<exists>i. r = Now (VInstance i) \<and>
         imodule i = \<lparr>mref = next_ref w, mcode = bdata (em_bytes g)\<rparr> \<and>
         iimports i = env (e g) \<and> iref i = Suc (next_ref w)) \<and>
      compiles (trace w1) = compiles (trace w) + 1"
    using EmWasm_get_INSTANCE_SYNC [of g H w r w1] by simp
  show ?thesis
    using once em_once em get_INSTANCE_SYNC_cached [of c m H w]
      get_INSTANCE_SYNC_ok [of c H w r c1 w1]
    by blast
qed

theorem sync_instance_fresh_witness:
  "fst (InWasm_run node [Invoke, Invoke] (fresh (compiled_def INSTANCE True JUndefined), w0)) =
     [Returned (Inr (Now (VInstance \<lparr>iref = 2, imodule = \<lparr>mref = 1, mcode = empty_module\<rparr>,
        iimports = JUndefined\<rparr>))),
      Returned (Inr (Now (VInstance \<lparr>iref = 3, imodule = \<lparr>mref = 1, mcode = empty_module\<rparr>,
        iimports = JUndefined\<rparr>)))] \<and>
   distinct (concat (map returned_refs
     (fst (InWasm_run node (replicate 5 Invoke) (fresh (compiled_def INSTANCE True JUndefined), w0)))))"
proof -
  let ?c = "fresh (compiled_def INSTANCE True JUndefined)"
  let ?m = "\<lparr>mref = 1, mcode = empty_module\<rparr>"
  let ?i = "\<lparr>iref = 2, imodule = ?m, iimports = JUndefined\<rparr>"
  let ?g = "\<lparr>t = INSTANCE, s = True, d = ''AGFzbQEAAAA='', e = JUndefined,
    em_bytes = \<lparr>bref = 0, bdata = empty_module\<rparr>\<rparr>"
  have shape: "t ?c = INSTANCE" "s ?c" "mod' ?c = None" "e ?c = JUndefined"
    by (simp_all add: fresh_def compiled_def_def)
  obtain r c1 w1 where run: "InWasm_get node (?c, w0) = (r, c1, w1)"
    by (cases "InWasm_get node (?c, w0)")
  have "fst (InWasm_get node (?c, w0)) = Inr (Now (VInstance ?i))" by code_simp
  with run have first: "InWasm_get node (?c, w0) = (Inr (Now (VInstance ?i)), c1, w1)" by simp
  from sync_instance_fresh [of ?c ?m node w0 "Now (VInstance ?i)" c1 w1 5 ?g] shape first
  have cached: "mod' c1 = Some ?m" and five: "distinct (concat (map returned_refs
     (fst (InWasm_run node (replicate 5 Invoke) (?c, w0)))))"
    by simp_all
  have keep: "t c1 = INSTANCE" "s c1" "e c1 = JUndefined"
    using InWasm_get_frame [OF first] shape by simp_all
  have "next_ref (snd (snd (InWasm_get node (?c, w0)))) = 3" by code_simp
  with run have "next_ref w1 = 3" by simp
  moreover have "link_error node (length (trace w1)) (mcode ?m) (env JUndefined) = None"
    by (simp add: node_def)
  ultimately have "fst (new_Instance node ?m (env JUndefined) w1) =
      Inr \<lparr>iref = 3, imodule = ?m, iimports = JUndefined\<rparr>"
    by (simp add: new_Instance_eq env_def)
  with sync_instance_fresh [of c1 ?m node w1 "Now (VInstance ?i)" c1 w1 5 ?g] keep cached
  have second: "fst (InWasm_get node (c1, w1)) =
      Inr (Now (VInstance \<lparr>iref = 3, imodule = ?m, iimports = JUndefined\<rparr>))"
    by (cases "new_Instance node ?m (env JUndefined) w1") auto
  have "fst (InWasm_run node [Invoke, Invoke] (?c, w0)) =
     [Returned (Inr (Now (VInstance ?i))),
      Returned (Inr (Now (VInstance \<lparr>iref = 3, imodule = ?m, iimports = JUndefined\<rparr>)))]"
    using first second by (cases "InWasm_get node (c1, w1)") simp
  with five show ?thesis by simp
qed

theorem sync_instance_recompiled_counterexample:
  "EmWasm_session node (compiled_def INSTANCE True JUndefined) [Invoke, Invoke] =
     ([Returned (Inr (Now (VInstance \<lparr>iref = 2, imodule = \<lparr>mref = 1, mcode = empty_module\<rparr>,
         iimports = JUndefined\<rparr>))),
       Returned (Inr (Now (VInstance \<lparr>iref = 4, imodule = \<lparr>mref = 3, mcode = empty_module\<rparr>,
         iimports = JUndefined\<rparr>)))],
      [Decode ''AGFzbQEAAAA='',
       NewModule \<lparr>bref = 0, bdata = empty_module\<rparr>,
       NewInstance \<lparr>mref = 1, mcode = empty_module\<rparr> JUndefined,
       NewModule \<lparr>bref = 0, bdata = empty_module\<rparr>,
       NewInstance \<lparr>mref = 3, mcode = empty_module\<rparr> JUndefined])"
  by code_simp


section \<open>Instances, asynchronously\<close>

lemma get_INSTANCE_ASYNC_cached:
  assumes "t c = INSTANCE" "\<not> s c" "mod' c = Some m"
  shows "InWasm_get H (c, w) =
    (Inr (Future (Pending (next_ref w))), c,
     (log (Async (OpInstantiateModule m (env (e c)))) w)\<lparr>next_ref := Suc (next_ref w),
        pending := pending w @ [(next_ref w, OpInstantiateModule m (env (e c)), NoThen)]\<rparr>)"
  using assms by (simp add: get_INSTANCE_ASYNC W_async_eq)

lemma get_INSTANCE_ASYNC_first:
  assumes "t c = INSTANCE" "\<not> s c" "mod' c = None" "fresh_ids w"
    and "InWasm_get H (c, w) = (Inr r, c1, w1)"
  shows "\<exists>k b. r = Future (Pending k) \<and>
    map_of (pending w1) k = Some (OpInstantiateBytes b (env (e c)), ThenStoreModuleGetInstance) \<and>
    bytes c1 = Some b \<and> mod' c1 = None \<and> compiles (trace w1) = compiles (trace w) + 1 \<and>
    fresh_ids w1"
proof -
  obtain r' c' w' where bb: "bytes_or_dec H (c, w) = (r', c', w')"
    by (cases "bytes_or_dec H (c, w)")
  show ?thesis
  proof (cases r')
    case (Inl err)
    with assms bb show ?thesis by (simp add: get_INSTANCE_ASYNC)
  next
    case (Inr b)
    let ?op = "OpInstantiateBytes b (env (e c))"
    from bytes_or_dec_ok [of H c w b c' w'] bb Inr have c': "c' = c\<lparr>bytes := Some b\<rparr>" by simp
    from assms bb Inr have r: "r = Future (Pending (next_ref w'))" and c1: "c1 = c'"
      and w1: "w1 = (log (Async ?op) w')\<lparr>next_ref := Suc (next_ref w'),
        pending := pending w' @ [(next_ref w', ?op, ThenStoreModuleGetInstance)]\<rparr>"
      by (simp_all add: get_INSTANCE_ASYNC W_async_eq)
    from bytes_or_dec_frame [OF bb] have fr: "next_ref w \<le> next_ref w'" "pending w' = pending w"
      "compiles (trace w') = compiles (trace w)" by simp_all
    have look: "map_of (pending w1) (next_ref w') = Some (?op, ThenStoreModuleGetInstance)"
      using assms(4) fr w1 by (intro map_of_fresh [of w]) simp_all
    have "fresh_ids w1"
      using assms(4) fr w1 by (auto simp: fresh_ids_def)
    with look r c1 c' w1 fr assms(3) show ?thesis by simp
  qed
qed

lemma complete_instantiate_bytes:
  "complete H (OpInstantiateBytes b imp) w = (Inr v, w1) \<Longrightarrow>
    v = VSource \<lparr>mref = next_ref w, mcode = bdata b\<rparr>
          \<lparr>iref = Suc (next_ref w), imodule = \<lparr>mref = next_ref w, mcode = bdata b\<rparr>,
             iimports = imp\<rparr> \<and>
    w1 = w\<lparr>next_ref := Suc (Suc (next_ref w))\<rparr>"
  by (auto simp: complete_def alloc_def Let_def split: option.splits)

lemma complete_instantiate_module:
  "complete H (OpInstantiateModule m imp) w = (Inr v, w1) \<Longrightarrow>
    v = VInstance \<lparr>iref = next_ref w, imodule = m, iimports = imp\<rparr> \<and>
    w1 = w\<lparr>next_ref := Suc (next_ref w)\<rparr>"
  by (auto simp: complete_def alloc_def split: option.splits)

lemma settle_instantiate_bytes:
  assumes "map_of (pending w) k = Some (OpInstantiateBytes b imp, ThenStoreModuleGetInstance)"
    and "settle H k (c, w) = (Some (Inr v), c1, w1)"
  shows "\<exists>i. v = VInstance i \<and> c1 = c\<lparr>mod' := Some (imodule i)\<rparr> \<and> iimports i = imp \<and>
    mcode (imodule i) = bdata b \<and> mref (imodule i) = next_ref w \<and> iref i = Suc (next_ref w) \<and>
    compiles (trace w1) = compiles (trace w)"
proof -
  let ?w = "log (Settle k) (w\<lparr>pending := filter (\<lambda>p. fst p \<noteq> k) (pending w)\<rparr>)"
  obtain r w' where cc: "complete H (OpInstantiateBytes b imp) ?w = (r, w')"
    by (cases "complete H (OpInstantiateBytes b imp) ?w")
  show ?thesis
  proof (cases r)
    case (Inl err)
    with assms cc show ?thesis by (simp add: settle_def)
  next
    case (Inr v')
    let ?m = "\<lparr>mref = next_ref w, mcode = bdata b\<rparr>"
    let ?i = "\<lparr>iref = Suc (next_ref w), imodule = ?m, iimports = imp\<rparr>"
    from complete_instantiate_bytes [of H b imp ?w v' w'] cc Inr
    have v': "v' = VSource ?m ?i" and w': "w' = ?w\<lparr>next_ref := Suc (Suc (next_ref w))\<rparr>"
      by simp_all
    from assms cc Inr v' have "v = VInstance ?i" "w1 = w'" "c1 = c\<lparr>mod' := Some ?m\<rparr>"
      by (simp_all add: settle_def)
    with w' show ?thesis by (simp add: log_def)
  qed
qed

lemma settle_instantiate_module:
  assumes "map_of (pending w) k = Some (OpInstantiateModule m imp, NoThen)"
    and "settle H k (c, w) = (Some (Inr v), c1, w1)"
  shows "v = VInstance \<lparr>iref = next_ref w, imodule = m, iimports = imp\<rparr> \<and> c1 = c \<and>
    compiles (trace w1) = compiles (trace w)"
proof -
  let ?w = "log (Settle k) (w\<lparr>pending := filter (\<lambda>p. fst p \<noteq> k) (pending w)\<rparr>)"
  obtain r w' where cc: "complete H (OpInstantiateModule m imp) ?w = (r, w')"
    by (cases "complete H (OpInstantiateModule m imp) ?w")
  show ?thesis
  proof (cases r)
    case (Inl err)
    with assms cc show ?thesis by (simp add: settle_def)
  next
    case (Inr v')
    from complete_instantiate_module [of H m imp ?w v' w'] cc Inr
    have v': "v' = VInstance \<lparr>iref = next_ref w, imodule = m, iimports = imp\<rparr>"
      and w': "w' = ?w\<lparr>next_ref := Suc (next_ref w)\<rparr>"
      by simp_all
    from assms cc Inr v' have "v = v'" "w1 = w'" "c1 = c"
      by (simp_all add: settle_def)
    with v' w' show ?thesis by (simp add: log_def)
  qed
qed

lemma EmWasm_get_INSTANCE_ASYNC:
  assumes "t g = INSTANCE" "\<not> s g"
  shows "EmWasm_get H g w =
    (Inr (Future (Pending (next_ref w))),
     (log (Async (OpInstantiateBytes (em_bytes g) (env (e g)))) w)\<lparr>next_ref := Suc (next_ref w),
        pending := pending w @
          [(next_ref w, OpInstantiateBytes (em_bytes g) (env (e g)), ThenGetInstance)]\<rparr>)"
  using assms by (simp add: EmWasm_get_def W_async_eq)

text \<open>
  C6, as amended. In \<open>InWasm\<close>, the asynchronous getter for \<open>INSTANCE\<close> instantiates
  directly from the stored module when there is one: that invocation neither decodes nor
  compiles, and its promise resolves to an instance of that very module. When none is
  stored it instantiates from the decoded bytes, and when that instantiation resolves its
  callback stores the module it produced and passes on the instance, so that an invocation
  made afterwards takes the first path. In \<open>EmWasm\<close> the getter instantiates from the
  bytes on every invocation and stores nothing.
\<close>

theorem async_instance_caches_module:
  "(t c = INSTANCE \<longrightarrow> \<not> s c \<longrightarrow> mod' c = Some m \<longrightarrow> InWasm_get H (c, w) =
      (Inr (Future (Pending (next_ref w))), c,
       (log (Async (OpInstantiateModule m (env (e c)))) w)\<lparr>next_ref := Suc (next_ref w),
          pending := pending w @ [(next_ref w, OpInstantiateModule m (env (e c)), NoThen)]\<rparr>)) \<and>
   (map_of (pending w) k = Some (OpInstantiateModule m imp, NoThen) \<longrightarrow>
    settle H k (c, w) = (Some (Inr v), c1, w1) \<longrightarrow>
      v = VInstance \<lparr>iref = next_ref w, imodule = m, iimports = imp\<rparr> \<and> c1 = c \<and>
      compiles (trace w1) = compiles (trace w)) \<and>
   (t c = INSTANCE \<longrightarrow> \<not> s c \<longrightarrow> mod' c = None \<longrightarrow> fresh_ids w \<longrightarrow>
    InWasm_get H (c, w) = (Inr r, c1, w1) \<longrightarrow>
      (\<exists>k b. r = Future (Pending k) \<and>
         map_of (pending w1) k =
           Some (OpInstantiateBytes b (env (e c)), ThenStoreModuleGetInstance) \<and>
         bytes c1 = Some b \<and> mod' c1 = None \<and>
         compiles (trace w1) = compiles (trace w) + 1 \<and> fresh_ids w1)) \<and>
   (map_of (pending w) k = Some (OpInstantiateBytes b imp, ThenStoreModuleGetInstance) \<longrightarrow>
    settle H k (c, w) = (Some (Inr v), c1, w1) \<longrightarrow>
      (\<exists>i. v = VInstance i \<and> c1 = c\<lparr>mod' := Some (imodule i)\<rparr> \<and> iimports i = imp \<and>
         mcode (imodule i) = bdata b \<and> mref (imodule i) = next_ref w \<and>
         iref i = Suc (next_ref w) \<and> compiles (trace w1) = compiles (trace w))) \<and>
   (t g = INSTANCE \<longrightarrow> \<not> s g \<longrightarrow> EmWasm_get H g w =
      (Inr (Future (Pending (next_ref w))),
       (log (Async (OpInstantiateBytes (em_bytes g) (env (e g)))) w)\<lparr>next_ref := Suc (next_ref w),
          pending := pending w @
            [(next_ref w, OpInstantiateBytes (em_bytes g) (env (e g)), ThenGetInstance)]\<rparr>))"
  using get_INSTANCE_ASYNC_cached [of c m H w] settle_instantiate_module [of w k m imp H c v c1 w1]
    get_INSTANCE_ASYNC_first [of c w H r c1 w1]
    settle_instantiate_bytes [of w k b imp H c v c1 w1] EmWasm_get_INSTANCE_ASYNC [of g H w]
  by blast

theorem async_instance_caches_module_witness:
  "fst (InWasm_run node [Invoke, Resolve 1, Invoke]
      (fresh (compiled_def INSTANCE False JUndefined), w0)) =
     [Returned (Inr (Future (Pending 1))),
      Outcome (Some (Inr (VInstance \<lparr>iref = 3, imodule = \<lparr>mref = 2, mcode = empty_module\<rparr>,
        iimports = JUndefined\<rparr>))),
      Returned (Inr (Future (Pending 4)))] \<and>
   mod' (fst (snd (InWasm_run node [Invoke, Resolve 1, Invoke]
      (fresh (compiled_def INSTANCE False JUndefined), w0)))) =
     Some \<lparr>mref = 2, mcode = empty_module\<rparr>"
proof -
  let ?c = "fresh (compiled_def INSTANCE False JUndefined)"
  let ?m = "\<lparr>mref = 2, mcode = empty_module\<rparr>"
  let ?i = "\<lparr>iref = 3, imodule = ?m, iimports = JUndefined\<rparr>"
  let ?b0 = "\<lparr>bref = 0, bdata = empty_module\<rparr>"
  let ?g = "\<lparr>t = INSTANCE, s = False, d = ''AGFzbQEAAAA='', e = JUndefined, em_bytes = ?b0\<rparr>"
  have shape: "t ?c = INSTANCE" "\<not> s ?c" "mod' ?c = None" "e ?c = JUndefined" "fresh_ids w0"
    by (simp_all add: fresh_def compiled_def_def fresh_ids_def w0_def)
  \<comment> \<open>the first invocation starts an instantiation from the bytes\<close>
  obtain r c1 w1 where run: "InWasm_get node (?c, w0) = (r, c1, w1)"
    by (cases "InWasm_get node (?c, w0)")
  have "fst (InWasm_get node (?c, w0)) = Inr (Future (Pending 1))" by code_simp
  with run have first: "InWasm_get node (?c, w0) = (Inr (Future (Pending 1)), c1, w1)" by simp
  from async_instance_caches_module [of ?c ?m node w0 0 JUndefined "VInstance ?i" c1 w1
      "Future (Pending 1)" ?b0 ?g] shape first
  obtain b where task: "map_of (pending w1) 1 =
      Some (OpInstantiateBytes b (env JUndefined), ThenStoreModuleGetInstance)"
    by auto
  \<comment> \<open>when it resolves, the module is stored\<close>
  obtain o2 c2 w2 where runs: "settle node 1 (c1, w1) = (o2, c2, w2)"
    by (cases "settle node 1 (c1, w1)")
  have "fst (settle node 1 (snd (InWasm_get node (?c, w0)))) = Some (Inr (VInstance ?i))"
    by code_simp
  with run runs have settled: "settle node 1 (c1, w1) = (Some (Inr (VInstance ?i)), c2, w2)"
    by simp
  from async_instance_caches_module [of c1 ?m node w1 1 "env JUndefined" "VInstance ?i" c2 w2
      "Future (Pending 1)" b ?g] task settled
  have c2: "c2 = c1\<lparr>mod' := Some ?m\<rparr>"
    by simp
  have keep: "t c1 = INSTANCE" "\<not> s c1"
    using InWasm_get_frame [OF first] shape by simp_all
  with c2 have cached: "t c2 = INSTANCE" "\<not> s c2" "mod' c2 = Some ?m" by simp_all
  \<comment> \<open>the next invocation instantiates from it\<close>
  have "next_ref (snd (snd (settle node 1 (snd (InWasm_get node (?c, w0)))))) = 4"
    by code_simp
  with run runs have "next_ref w2 = 4" by simp
  with async_instance_caches_module [of c2 ?m node w2 0 JUndefined "VInstance ?i" c2 w2
      "Future (Pending 1)" ?b0 ?g] cached
  have third: "fst (InWasm_get node (c2, w2)) = Inr (Future (Pending 4))"
    and same: "fst (snd (InWasm_get node (c2, w2))) = c2"
    by simp_all
  from first settled third same cached show ?thesis
    by (cases "InWasm_get node (c2, w2)") simp
qed

theorem async_instance_recompiled_counterexample:
  "EmWasm_session node (compiled_def INSTANCE False JUndefined)
      [Invoke, Resolve 1, Invoke, Resolve 4] =
     ([Returned (Inr (Future (Pending 1))),
       Outcome (Some (Inr (VInstance \<lparr>iref = 3, imodule = \<lparr>mref = 2, mcode = empty_module\<rparr>,
         iimports = JUndefined\<rparr>))),
       Returned (Inr (Future (Pending 4))),
       Outcome (Some (Inr (VInstance \<lparr>iref = 6, imodule = \<lparr>mref = 5, mcode = empty_module\<rparr>,
         iimports = JUndefined\<rparr>)))],
      [Decode ''AGFzbQEAAAA='',
       Async (OpInstantiateBytes \<lparr>bref = 0, bdata = empty_module\<rparr> JUndefined),
       Settle 1,
       Async (OpInstantiateBytes \<lparr>bref = 0, bdata = empty_module\<rparr> JUndefined),
       Settle 4])"
  by code_simp


section \<open>Failures\<close>

lemma bytes_or_dec_slots:
  assumes "bytes_or_dec H (c, w) = (r, c1, w1)"
  shows "(bytes c \<noteq> None \<longrightarrow> c1 = c \<and> w1 = w) \<and> import_args (trace w1) = import_args (trace w) \<and>
    (bytes c = None \<longrightarrow> decodes (trace w1) = decodes (trace w) + 1) \<and>
    ((\<exists>err. r = Inl err) \<longrightarrow> c1 = c \<and> bytes c = None)"
  using assms by (auto simp: bytes_or_dec_eq dec_eq split: option.splits sum.splits)

lemma mod_or_new_slots:
  assumes "mod_or_new H (c, w) = (r, c1, w1)"
  shows "(bytes c \<noteq> None \<longrightarrow> bytes c1 = bytes c) \<and> (mod' c \<noteq> None \<longrightarrow> c1 = c \<and> w1 = w) \<and>
    import_args (trace w1) = import_args (trace w) \<and>
    (mod' c = None \<longrightarrow> bytes c \<noteq> None \<longrightarrow>
       compiles (trace w1) = compiles (trace w) + 1 \<and> decodes (trace w1) = decodes (trace w))"
proof (cases "mod' c")
  case None
  obtain r' c' w' where bb: "bytes_or_dec H (c, w) = (r', c', w')"
    by (cases "bytes_or_dec H (c, w)")
  from bytes_or_dec_slots [OF bb] bytes_or_dec_frame [OF bb] assms None bb show ?thesis
    by (cases r') (auto simp: mod_or_new_eq new_Module_eq split: option.splits)
next
  case (Some m)
  with assms show ?thesis by (simp add: mod_or_new_eq)
qed

lemma InWasm_get_work:
  assumes "InWasm_get H (c, w) = (r, c1, w1)"
  shows "compiles (trace w1) \<le> compiles (trace w) + 1 \<and>
    decodes (trace w1) \<le> decodes (trace w) + 1 \<and>
    length (import_args (trace w1)) \<le> length (import_args (trace w)) + 1"
proof -
  obtain rb cb wb where bb: "bytes_or_dec H (c, w) = (rb, cb, wb)"
    by (cases "bytes_or_dec H (c, w)")
  obtain rm cm wm where mm: "mod_or_new H (c, w) = (rm, cm, wm)"
    by (cases "mod_or_new H (c, w)")
  note fb = bytes_or_dec_frame [OF bb] bytes_or_dec_slots [OF bb]
    and fm = mod_or_new_frame [OF mm] mod_or_new_slots [OF mm]
  show ?thesis
  proof (cases "t c")
    case BYTES
    with assms bb fb show ?thesis
      by (cases rb) (auto simp: get_BYTES)
  next
    case MODULE
    show ?thesis
    proof (cases "s c")
      case True
      with assms MODULE mm fm show ?thesis
        by (cases rm) (auto simp: get_MODULE_SYNC)
    next
      case False
      with assms MODULE bb fb show ?thesis
        by (cases rb; cases "mod' c") (auto simp: get_MODULE_ASYNC W_async_eq)
    qed
  next
    case INSTANCE
    show ?thesis
    proof (cases "s c")
      case True
      with assms INSTANCE mm fm show ?thesis
        by (cases rm) (auto simp: get_INSTANCE_SYNC new_Instance_eq split: option.splits)
    next
      case False
      with assms INSTANCE bb fb show ?thesis
        by (cases rb; cases "mod' c") (auto simp: get_INSTANCE_ASYNC W_async_eq)
    qed
  qed
qed

lemma InWasm_get_error_slots:
  assumes "InWasm_get H (c, w) = (Inl err, c1, w1)"
  shows "(bytes c \<noteq> None \<longrightarrow> bytes c1 = bytes c) \<and> (mod' c \<noteq> None \<longrightarrow> mod' c1 = mod' c) \<and>
    (mod' c1 = mod' c \<or>
     t c = INSTANCE \<and> s c \<and>
       (\<exists>m n. mod' c1 = Some m \<and> link_error H n (mcode m) (env (e c)) = Some err))"
proof -
  obtain rb cb wb where bb: "bytes_or_dec H (c, w) = (rb, cb, wb)"
    by (cases "bytes_or_dec H (c, w)")
  obtain rm cm wm where mm: "mod_or_new H (c, w) = (rm, cm, wm)"
    by (cases "mod_or_new H (c, w)")
  note fb = bytes_or_dec_frame [OF bb] bytes_or_dec_slots [OF bb]
    and fm = mod_or_new_slots [OF mm]
  show ?thesis
  proof (cases "t c")
    case BYTES
    with assms bb fb show ?thesis
      by (cases rb) (auto simp: get_BYTES)
  next
    case MODULE
    show ?thesis
    proof (cases "s c")
      case True
      with assms MODULE mm have rm: "rm = Inl err" and c1: "c1 = cm"
        by (cases rm; simp add: get_MODULE_SYNC)+
      from mod_or_new_error [of H c w err cm wm] mm rm have "mod' c = None" "mod' cm = None"
        by simp_all
      with fm c1 show ?thesis by simp
    next
      case False
      with assms MODULE bb fb show ?thesis
        by (cases rb; cases "mod' c") (auto simp: get_MODULE_ASYNC W_async_eq)
    qed
  next
    case INSTANCE
    show ?thesis
    proof (cases "s c")
      case True
      show ?thesis
      proof (cases rm)
        case (Inl err')
        with assms INSTANCE True mm have "err' = err" and c1: "c1 = cm"
          by (simp_all add: get_INSTANCE_SYNC)
        with mod_or_new_error [of H c w err cm wm] mm Inl have "mod' c = None" "mod' cm = None"
          by simp_all
        with fm c1 show ?thesis by simp
      next
        case (Inr m)
        with assms INSTANCE True mm
        obtain w2 where ii: "new_Instance H m (env (e c)) wm = (Inl err, w2)" and c1: "c1 = cm"
          by (auto simp: get_INSTANCE_SYNC split: prod.splits sum.splits)
        from new_Instance_error [OF ii]
        have link: "link_error H (length (trace wm)) (mcode m) (env (e c)) = Some err" by simp
        from mod_or_new_ok [of H c w m cm wm] mm Inr have "mod' cm = Some m" by simp
        with link fm c1 INSTANCE True show ?thesis by auto
      qed
    next
      case False
      with assms INSTANCE bb fb show ?thesis
        by (cases rb; cases "mod' c") (auto simp: get_INSTANCE_ASYNC W_async_eq)
    qed
  qed
qed

lemma complete_error:
  "complete H op w = (Inl err, w1) \<Longrightarrow> platform_error H err \<and> w1 = w"
  by (cases op)
    (auto simp: complete_def alloc_def Let_def intro: platform_errorI(2,3) split: option.splits)

lemma settle_error:
  assumes "settle H k (c, w) = (Some (Inl err), c1, w1)"
  shows "c1 = c \<and> platform_error H err"
proof (cases "map_of (pending w) k")
  case None
  with assms show ?thesis by (simp add: settle_def)
next
  case (Some task)
  obtain op r where task: "task = (op, r)" by (cases task)
  let ?w = "log (Settle k) (w\<lparr>pending := filter (\<lambda>p. fst p \<noteq> k) (pending w)\<rparr>)"
  obtain x w' where cc: "complete H op ?w = (x, w')" by (cases "complete H op ?w")
  show ?thesis
  proof (cases x)
    case (Inl err')
    with assms Some task cc have "err' = err" "c1 = c" by (simp_all add: settle_def)
    with complete_error [of H op ?w err w'] cc Inl show ?thesis by simp
  next
    case (Inr v)
    with assms Some task cc show ?thesis by (simp add: settle_def)
  qed
qed

lemma InWasm_get_again:
  assumes "t c \<noteq> BYTES" "mod' c = None" "bytes c = Some b" and "InWasm_get H (c, w) = (r, c1, w1)"
  shows "compiles (trace w1) = compiles (trace w) + 1 \<and> decodes (trace w1) = decodes (trace w)"
proof -
  obtain rm cm wm where mm: "mod_or_new H (c, w) = (rm, cm, wm)"
    by (cases "mod_or_new H (c, w)")
  note fm = mod_or_new_slots [OF mm]
  show ?thesis
  proof (cases "s c")
    case True
    show ?thesis
    proof (cases "t c")
      case BYTES
      with assms show ?thesis by simp
    next
      case MODULE
      with assms True mm fm show ?thesis
        by (cases rm) (auto simp: get_MODULE_SYNC)
    next
      case INSTANCE
      with assms True mm fm show ?thesis
        by (cases rm) (auto simp: get_INSTANCE_SYNC new_Instance_eq split: option.splits)
    qed
  next
    case False
    with assms show ?thesis
      by (cases "t c") (auto simp: get_MODULE_ASYNC get_INSTANCE_ASYNC bytes_or_dec_Some W_async_eq)
  qed
qed

text \<open>The encoding of the module with an import, as the examples write it in \<open>d\<close>.\<close>

lemma importing_module_encoded: "b64_encode importing_module = ''AGFzbQEAAAACCgEDZW52AWcDfwA=''"
  by code_simp

lemma sync_compile_fails:
  assumes "s c" "t c \<noteq> BYTES" "mod' c = None" "bytes_or_dec H (c, w) = (Inr b, cb, wb)"
    and "compile_error H (length (trace wb)) (bdata b) = Some err"
  shows "InWasm_get H (c, w) = (Inl err, cb, log (NewModule b) wb) \<and> mod' cb = None \<and>
    bytes cb = Some b"
proof -
  from assms(3,4) have cb: "mod' cb = None" "bytes cb = Some b"
    by (auto simp: bytes_or_dec_eq split: option.splits prod.splits sum.splits)
  from assms(3,4,5) have mm: "mod_or_new H (c, w) = (Inl err, cb, log (NewModule b) wb)"
    by (simp add: mod_or_new_eq new_Module_eq)
  from assms(1,2) mm cb show ?thesis
    by (cases "t c") (simp_all add: get_MODULE_SYNC get_INSTANCE_SYNC)
qed

lemma sync_link_fails:
  assumes "s c" "t c = INSTANCE" "mod_or_new H (c, w) = (Inr m, cm, wm)"
    and "link_error H (length (trace wm)) (mcode m) (env (e c)) = Some err"
  shows "InWasm_get H (c, w) = (Inl err, cm, log (NewInstance m (env (e c))) wm) \<and>
    mod' cm = Some m"
  using assms mod_or_new_ok [OF assms(3)]
  by (simp add: get_INSTANCE_SYNC new_Instance_eq)

lemma settle_rejects:
  assumes "map_of (pending w) k = Some (op, rc)"
    and "complete H op (log (Settle k) (w\<lparr>pending := filter (\<lambda>p. fst p \<noteq> k) (pending w)\<rparr>)) =
      (Inl err, w1)"
  shows "settle H k (c, w) = (Some (Inl err), c, w1)"
  using assms by (simp add: settle_def)

lemma InWasm_get_cause:
  assumes "InWasm_get H (c, w) = (Inl err, c1, w1)"
  shows "(bytes c = None \<and> dec H (d c) w = (Inl err, w1) \<and> c1 = c) \<or>
    (s c \<and> t c \<noteq> BYTES \<and> mod' c = None \<and>
      (\<exists>b wb. bytes_or_dec H (c, w) = (Inr b, c1, wb) \<and>
         compile_error H (length (trace wb)) (bdata b) = Some err \<and> w1 = log (NewModule b) wb)) \<or>
    (s c \<and> t c = INSTANCE \<and>
      (\<exists>m wm. mod_or_new H (c, w) = (Inr m, c1, wm) \<and>
         link_error H (length (trace wm)) (mcode m) (env (e c)) = Some err \<and>
         w1 = log (NewInstance m (env (e c))) wm))"
proof -
  have B: "bytes c = None \<and> dec H (d c) w = (Inl err, w1) \<and> c1 = c"
    if "bytes_or_dec H (c, w) = (Inl err, c1, w1)"
    using that by (auto simp: bytes_or_dec_eq split: option.splits prod.splits sum.splits)
  have M: "(bytes c = None \<and> dec H (d c) w = (Inl err, w1) \<and> c1 = c) \<or>
      (mod' c = None \<and>
        (\<exists>b wb. bytes_or_dec H (c, w) = (Inr b, c1, wb) \<and>
          compile_error H (length (trace wb)) (bdata b) = Some err \<and> w1 = log (NewModule b) wb))"
    if mm: "mod_or_new H (c, w) = (Inl err, c1, w1)"
  proof -
    from mod_or_new_error [OF mm] have none: "mod' c = None" by simp
    obtain r c' w' where bb: "bytes_or_dec H (c, w) = (r, c', w')"
      by (cases "bytes_or_dec H (c, w)")
    show ?thesis
    proof (cases r)
      case (Inl err')
      with mm none bb have "bytes_or_dec H (c, w) = (Inl err, c1, w1)"
        by (simp add: mod_or_new_eq)
      from B [OF this] show ?thesis by simp
    next
      case (Inr b)
      with mm none bb obtain w2 where nn: "new_Module H b w' = (Inl err, w2)"
        and eq: "c1 = c'" "w1 = w2"
        by (auto simp: mod_or_new_eq split: prod.splits sum.splits)
      from new_Module_error [OF nn] bb Inr eq none show ?thesis by simp
    qed
  qed
  show ?thesis
  proof (cases "t c")
    case BYTES
    with assms have "bytes_or_dec H (c, w) = (Inl err, c1, w1)"
      by (auto simp: get_BYTES split: prod.splits sum.splits)
    from B [OF this] show ?thesis by simp
  next
    case MODULE
    show ?thesis
    proof (cases "s c")
      case True
      with assms MODULE have "mod_or_new H (c, w) = (Inl err, c1, w1)"
        by (auto simp: get_MODULE_SYNC split: prod.splits sum.splits)
      from M [OF this] True MODULE show ?thesis by auto
    next
      case False
      with assms MODULE have "bytes_or_dec H (c, w) = (Inl err, c1, w1)"
        by (auto simp: get_MODULE_ASYNC W_async_eq split: prod.splits sum.splits option.splits)
      from B [OF this] show ?thesis by simp
    qed
  next
    case INSTANCE
    show ?thesis
    proof (cases "s c")
      case True
      obtain r c' w' where mm: "mod_or_new H (c, w) = (r, c', w')"
        by (cases "mod_or_new H (c, w)")
      show ?thesis
      proof (cases r)
        case (Inl err')
        with assms INSTANCE True mm have "mod_or_new H (c, w) = (Inl err, c1, w1)"
          by (simp add: get_INSTANCE_SYNC)
        from M [OF this] True INSTANCE show ?thesis by auto
      next
        case (Inr m)
        with assms INSTANCE True mm
        obtain w2 where ii: "new_Instance H m (env (e c)) w' = (Inl err, w2)"
          and eq: "c1 = c'" "w1 = w2"
          by (auto simp: get_INSTANCE_SYNC split: prod.splits sum.splits)
        from new_Instance_error [OF ii] mm Inr eq True INSTANCE show ?thesis by simp
      qed
    next
      case False
      with assms INSTANCE have "bytes_or_dec H (c, w) = (Inl err, c1, w1)"
        by (auto simp: get_INSTANCE_ASYNC W_async_eq split: prod.splits sum.splits option.splits)
      from B [OF this] show ?thesis by simp
    qed
  qed
qed

lemma settle_cause:
  assumes "settle H k (c, w) = (Some (Inl err), c1, w1)"
  shows "\<exists>op rc. map_of (pending w) k = Some (op, rc) \<and>
    complete H op (log (Settle k) (w\<lparr>pending := filter (\<lambda>p. fst p \<noteq> k) (pending w)\<rparr>)) =
      (Inl err, w1)"
  using assms by (auto simp: settle_def split: option.splits prod.splits sum.splits)

text \<open>
  C8, as amended. \<open>InWasm\<close> never retries and never catches. When the engine refuses
  the compilation in a synchronous getter, the invocation throws the engine's error, with
  the decoded bytes stored and \<open>mod\<close> unset; when it refuses the instantiation in the
  synchronous getter for \<open>INSTANCE\<close>, the invocation throws that error, with the module
  stored; when it rejects an operation in flight, the promise is rejected with that error
  and the closure is as it was. Conversely, an error thrown by an invocation is the one
  that the decoding, the compilation or the instantiation of that very invocation threw,
  and a rejection is the engine's. An invocation issues at most one decoding, one
  compilation and one instantiation. So the failing call assigns nothing, but the
  invocation does not leave the state as it found it: what succeeded before the failure
  stays stored (the decoded bytes, and the module when only the instantiation failed),
  and nothing stored is ever cleared or replaced. While \<open>mod\<close> is unset, the next
  invocation compiles again, from the stored bytes.
\<close>

theorem host_failure_propagates:
  "(s c \<longrightarrow> t c \<noteq> BYTES \<longrightarrow> mod' c = None \<longrightarrow> bytes_or_dec H (c, w) = (Inr b, cb, wb) \<longrightarrow>
      compile_error H (length (trace wb)) (bdata b) = Some err \<longrightarrow>
      InWasm_get H (c, w) = (Inl err, cb, log (NewModule b) wb) \<and> mod' cb = None \<and>
      bytes cb = Some b) \<and>
   (s c \<longrightarrow> t c = INSTANCE \<longrightarrow> mod_or_new H (c, w) = (Inr m, cm, wm) \<longrightarrow>
      link_error H (length (trace wm)) (mcode m) (env (e c)) = Some err \<longrightarrow>
      InWasm_get H (c, w) = (Inl err, cm, log (NewInstance m (env (e c))) wm) \<and>
      mod' cm = Some m) \<and>
   (map_of (pending w) k = Some (op, rc) \<longrightarrow>
      complete H op (log (Settle k) (w\<lparr>pending := filter (\<lambda>p. fst p \<noteq> k) (pending w)\<rparr>)) =
        (Inl err, w') \<longrightarrow>
      settle H k (c, w) = (Some (Inl err), c, w')) \<and>
   (InWasm_get H (c, w) = (Inl err, c', w') \<longrightarrow>
      platform_error H err \<and>
      ((bytes c = None \<and> dec H (d c) w = (Inl err, w') \<and> c' = c) \<or>
       (s c \<and> t c \<noteq> BYTES \<and> mod' c = None \<and>
         (\<exists>b wb. bytes_or_dec H (c, w) = (Inr b, c', wb) \<and>
            compile_error H (length (trace wb)) (bdata b) = Some err \<and>
            w' = log (NewModule b) wb)) \<or>
       (s c \<and> t c = INSTANCE \<and>
         (\<exists>m wm. mod_or_new H (c, w) = (Inr m, c', wm) \<and>
            link_error H (length (trace wm)) (mcode m) (env (e c)) = Some err \<and>
            w' = log (NewInstance m (env (e c))) wm))) \<and>
      (bytes c \<noteq> None \<longrightarrow> bytes c' = bytes c) \<and> (mod' c \<noteq> None \<longrightarrow> mod' c' = mod' c) \<and>
      (mod' c' = mod' c \<or>
       t c = INSTANCE \<and> s c \<and>
         (\<exists>m n. mod' c' = Some m \<and> link_error H n (mcode m) (env (e c)) = Some err))) \<and>
   (settle H k (c, w) = (Some (Inl err), c', w') \<longrightarrow>
      c' = c \<and> platform_error H err \<and>
      (\<exists>op rc. map_of (pending w) k = Some (op, rc) \<and>
         complete H op (log (Settle k) (w\<lparr>pending := filter (\<lambda>p. fst p \<noteq> k) (pending w)\<rparr>)) =
           (Inl err, w'))) \<and>
   (InWasm_get H (c, w) = (r, c', w') \<longrightarrow>
      compiles (trace w') \<le> compiles (trace w) + 1 \<and>
      decodes (trace w') \<le> decodes (trace w) + 1 \<and>
      length (import_args (trace w')) \<le> length (import_args (trace w)) + 1) \<and>
   (t c \<noteq> BYTES \<longrightarrow> mod' c = None \<longrightarrow> bytes c = Some b \<longrightarrow> InWasm_get H (c, w) = (r, c', w') \<longrightarrow>
      compiles (trace w') = compiles (trace w) + 1 \<and> decodes (trace w') = decodes (trace w))"
proof -
  have 1: "s c \<longrightarrow> t c \<noteq> BYTES \<longrightarrow> mod' c = None \<longrightarrow> bytes_or_dec H (c, w) = (Inr b, cb, wb) \<longrightarrow>
      compile_error H (length (trace wb)) (bdata b) = Some err \<longrightarrow>
      InWasm_get H (c, w) = (Inl err, cb, log (NewModule b) wb) \<and> mod' cb = None \<and>
      bytes cb = Some b"
    using sync_compile_fails [of c H w b cb wb err] by blast
  have 2: "s c \<longrightarrow> t c = INSTANCE \<longrightarrow> mod_or_new H (c, w) = (Inr m, cm, wm) \<longrightarrow>
      link_error H (length (trace wm)) (mcode m) (env (e c)) = Some err \<longrightarrow>
      InWasm_get H (c, w) = (Inl err, cm, log (NewInstance m (env (e c))) wm) \<and>
      mod' cm = Some m"
    using sync_link_fails [of c H w m cm wm err] by blast
  have 3: "map_of (pending w) k = Some (op, rc) \<longrightarrow>
      complete H op (log (Settle k) (w\<lparr>pending := filter (\<lambda>p. fst p \<noteq> k) (pending w)\<rparr>)) =
        (Inl err, w') \<longrightarrow>
      settle H k (c, w) = (Some (Inl err), c, w')"
    using settle_rejects [of w k op rc H err w' c] by blast
  have 4: "InWasm_get H (c, w) = (Inl err, c', w') \<longrightarrow>
      platform_error H err \<and>
      ((bytes c = None \<and> dec H (d c) w = (Inl err, w') \<and> c' = c) \<or>
       (s c \<and> t c \<noteq> BYTES \<and> mod' c = None \<and>
         (\<exists>b wb. bytes_or_dec H (c, w) = (Inr b, c', wb) \<and>
            compile_error H (length (trace wb)) (bdata b) = Some err \<and>
            w' = log (NewModule b) wb)) \<or>
       (s c \<and> t c = INSTANCE \<and>
         (\<exists>m wm. mod_or_new H (c, w) = (Inr m, c', wm) \<and>
            link_error H (length (trace wm)) (mcode m) (env (e c)) = Some err \<and>
            w' = log (NewInstance m (env (e c))) wm))) \<and>
      (bytes c \<noteq> None \<longrightarrow> bytes c' = bytes c) \<and> (mod' c \<noteq> None \<longrightarrow> mod' c' = mod' c) \<and>
      (mod' c' = mod' c \<or>
       t c = INSTANCE \<and> s c \<and>
         (\<exists>m n. mod' c' = Some m \<and> link_error H n (mcode m) (env (e c)) = Some err))"
    using InWasm_get_error [of H c w err c' w'] InWasm_get_cause [of H c w err c' w']
      InWasm_get_error_slots [of H c w err c' w']
    by (intro impI conjI) simp_all
  have 5: "settle H k (c, w) = (Some (Inl err), c', w') \<longrightarrow>
      c' = c \<and> platform_error H err \<and>
      (\<exists>op rc. map_of (pending w) k = Some (op, rc) \<and>
         complete H op (log (Settle k) (w\<lparr>pending := filter (\<lambda>p. fst p \<noteq> k) (pending w)\<rparr>)) =
           (Inl err, w'))"
    using settle_error [of H k c w err c' w'] settle_cause [of H k c w err c' w'] by blast
  have 6: "InWasm_get H (c, w) = (r, c', w') \<longrightarrow>
      compiles (trace w') \<le> compiles (trace w) + 1 \<and>
      decodes (trace w') \<le> decodes (trace w) + 1 \<and>
      length (import_args (trace w')) \<le> length (import_args (trace w)) + 1"
    using InWasm_get_work [of H c w r c' w'] by blast
  have 7: "t c \<noteq> BYTES \<longrightarrow> mod' c = None \<longrightarrow> bytes c = Some b \<longrightarrow> InWasm_get H (c, w) = (r, c', w') \<longrightarrow>
      compiles (trace w') = compiles (trace w) + 1 \<and> decodes (trace w') = decodes (trace w)"
    using InWasm_get_again [of c b H w r c' w'] by blast
  from 1 2 3 4 5 6 7 show ?thesis by (intro conjI)
qed

theorem host_failure_propagates_witness:
  "fst (InWasm_get flaky_node (fresh (compiled_def MODULE True JUndefined), w0)) =
     Inl (RuntimeError ''out of memory'') \<and>
   mod' (fst (snd (InWasm_get flaky_node (fresh (compiled_def MODULE True JUndefined), w0)))) = None \<and>
   bytes (fst (snd (InWasm_get flaky_node (fresh (compiled_def MODULE True JUndefined), w0)))) =
     Some \<lparr>bref = 0, bdata = empty_module\<rparr> \<and>
   platform_error flaky_node (RuntimeError ''out of memory'') \<and>
   fst (InWasm_run flaky_node [Invoke, Invoke] (fresh (compiled_def MODULE True JUndefined), w0)) =
     [Returned (Inl (RuntimeError ''out of memory'')),
      Returned (Inr (Now (VModule \<lparr>mref = 1, mcode = empty_module\<rparr>)))] \<and>
   compiles (trace (snd (snd (InWasm_run flaky_node [Invoke, Invoke]
     (fresh (compiled_def MODULE True JUndefined), w0))))) = 2 \<and>
   fst (InWasm_get linking_node
     (fresh \<lparr>t = INSTANCE, s = True, d = ''AGFzbQEAAAACCgEDZW52AWcDfwA='', e = JUndefined\<rparr>, w0)) =
     Inl (TypeError
       ''Imports argument must be present and must be an object'') \<and>
   mod' (fst (snd (InWasm_get linking_node
     (fresh \<lparr>t = INSTANCE, s = True, d = ''AGFzbQEAAAACCgEDZW52AWcDfwA='', e = JUndefined\<rparr>, w0)))) =
     Some \<lparr>mref = 1, mcode = importing_module\<rparr> \<and>
   fst (InWasm_run node [Invoke, Resolve 1]
     (fresh \<lparr>t = MODULE, s = False, d = ''AAAA'', e = JUndefined\<rparr>, w0)) =
     [Returned (Inr (Future (Pending 1))),
      Outcome (Some (Inl (CompileError ''expected magic word'')))] \<and>
   mod' (fst (snd (InWasm_run node [Invoke, Resolve 1]
     (fresh \<lparr>t = MODULE, s = False, d = ''AAAA'', e = JUndefined\<rparr>, w0)))) = None"
proof -
  let ?c = "fresh (compiled_def MODULE True JUndefined)"
  let ?i = "fresh \<lparr>t = INSTANCE, s = True, d = ''AGFzbQEAAAACCgEDZW52AWcDfwA='', e = JUndefined\<rparr>"
  let ?a = "fresh \<lparr>t = MODULE, s = False, d = ''AAAA'', e = JUndefined\<rparr>"
  let ?oom = "RuntimeError ''out of memory''"
  let ?bad = "CompileError ''expected magic word''"
  let ?miss = "TypeError
    ''Imports argument must be present and must be an object''"
  let ?b0 = "\<lparr>bref = 0, bdata = empty_module\<rparr>"
  let ?b3 = "\<lparr>bref = 0, bdata = [0, 0, 0]\<rparr>"
  let ?m = "\<lparr>mref = 1, mcode = empty_module\<rparr>"
  let ?mi = "\<lparr>mref = 1, mcode = importing_module\<rparr>"
  have shape: "t ?c = MODULE" "s ?c" "mod' ?c = None" "t ?i = INSTANCE" "s ?i" "e ?i = JUndefined"
    "mod' ?a = None" "trace w0 = []"
    by (simp_all add: fresh_def compiled_def_def w0_def)
  \<comment> \<open>the engine fails the first compilation; the second invocation compiles again\<close>
  obtain rb cb wb where dec1: "bytes_or_dec flaky_node (?c, w0) = (rb, cb, wb)"
    by (cases "bytes_or_dec flaky_node (?c, w0)")
  have "fst (bytes_or_dec flaky_node (?c, w0)) = Inr ?b0" by code_simp
  with dec1 have decoded: "bytes_or_dec flaky_node (?c, w0) = (Inr ?b0, cb, wb)" by simp
  have "compile_error flaky_node (length (trace (snd (snd (bytes_or_dec flaky_node (?c, w0))))))
      empty_module = Some ?oom"
    by code_simp
  with dec1 have refused: "compile_error flaky_node (length (trace wb)) (bdata ?b0) = Some ?oom"
    by simp
  from host_failure_propagates [where c = ?c and b = ?b0 and H = flaky_node and w = w0 and
      cb = cb and wb = wb and err = ?oom and m = ?m and cm = cb and wm = wb and k = 0 and
      op = "OpCompile ?b0" and rc = NoThen and w' = wb and c' = cb and r = "Inl ?oom"]
    shape decoded refused
  have failed: "InWasm_get flaky_node (?c, w0) = (Inl ?oom, cb, log (NewModule ?b0) wb)"
    and unset: "mod' cb = None" and stored: "bytes cb = Some ?b0"
    by simp_all
  let ?w1 = "log (NewModule ?b0) wb"
  from host_failure_propagates [where c = ?c and b = ?b0 and H = flaky_node and w = w0 and
      cb = cb and wb = wb and err = ?oom and m = ?m and cm = cb and wm = wb and k = 0 and
      op = "OpCompile ?b0" and rc = NoThen and w' = ?w1 and c' = cb and r = "Inl ?oom"] failed
  have perr: "platform_error flaky_node ?oom" by simp
  have keep: "t cb = MODULE" "s cb"
    using InWasm_get_frame [OF failed] shape by simp_all
  obtain r2 c2 w2 where run2: "InWasm_get flaky_node (cb, ?w1) = (r2, c2, w2)"
    by (cases "InWasm_get flaky_node (cb, ?w1)")
  from host_failure_propagates [where c = cb and b = ?b0 and H = flaky_node and w = ?w1 and
      cb = cb and wb = wb and err = ?oom and m = ?m and cm = cb and wm = wb and k = 0 and
      op = "OpCompile ?b0" and rc = NoThen and w' = w2 and c' = c2 and r = r2]
    run2 keep unset stored
  have again: "compiles (trace w2) = compiles (trace ?w1) + 1"
    by simp
  have "compiles (trace (snd (snd (InWasm_get flaky_node (?c, w0))))) = 1" by code_simp
  with failed again have total: "compiles (trace w2) = 2" by simp
  have obs: "fst (InWasm_run flaky_node [Invoke, Invoke] (?c, w0)) =
      [Returned (Inl ?oom), Returned (Inr (Now (VModule ?m)))]"
    by code_simp
  have tr: "trace (snd (snd (InWasm_run flaky_node [Invoke, Invoke] (?c, w0)))) = trace w2"
    using failed run2 by simp
  have first: "fst (InWasm_get flaky_node (?c, w0)) = Inl ?oom"
    "mod' (fst (snd (InWasm_get flaky_node (?c, w0)))) = None"
    "bytes (fst (snd (InWasm_get flaky_node (?c, w0)))) = Some ?b0"
    using failed unset stored by simp_all
  \<comment> \<open>the engine compiles, then refuses to link: the module stays stored\<close>
  obtain rm cm wm where mod1: "mod_or_new linking_node (?i, w0) = (rm, cm, wm)"
    by (cases "mod_or_new linking_node (?i, w0)")
  have "fst (mod_or_new linking_node (?i, w0)) = Inr ?mi" by code_simp
  with mod1 have compiled: "mod_or_new linking_node (?i, w0) = (Inr ?mi, cm, wm)" by simp
  have "link_error linking_node (length (trace (snd (snd (mod_or_new linking_node (?i, w0))))))
      importing_module (env JUndefined) = Some ?miss"
    by code_simp
  with mod1 have unlinked: "link_error linking_node (length (trace wm)) (mcode ?mi) (env (e ?i)) =
      Some ?miss"
    using shape by simp
  from host_failure_propagates [where c = ?i and b = ?b0 and H = linking_node and w = w0 and
      cb = cm and wb = wm and err = ?miss and m = ?mi and cm = cm and wm = wm and k = 0 and
      op = "OpCompile ?b0" and rc = NoThen and w' = wm and c' = cm and r = "Inl ?miss"]
    shape compiled unlinked
  have link: "InWasm_get linking_node (?i, w0) =
      (Inl ?miss, cm, log (NewInstance ?mi (env (e ?i))) wm)"
    and kept: "mod' cm = Some ?mi"
    by simp_all
  have second: "fst (InWasm_get linking_node (?i, w0)) = Inl ?miss"
    "mod' (fst (snd (InWasm_get linking_node (?i, w0)))) = Some ?mi"
    using link kept by simp_all
  \<comment> \<open>a rejected compilation leaves the closure as it was\<close>
  obtain ra ca wa where runa: "InWasm_get node (?a, w0) = (ra, ca, wa)"
    by (cases "InWasm_get node (?a, w0)")
  have "map_of (pending (snd (snd (InWasm_get node (?a, w0))))) 1 =
      Some (OpCompile ?b3, ThenStoreModule)"
    by code_simp
  with runa have task: "map_of (pending wa) 1 = Some (OpCompile ?b3, ThenStoreModule)" by simp
  let ?ws = "log (Settle 1) (wa\<lparr>pending := filter (\<lambda>p. fst p \<noteq> 1) (pending wa)\<rparr>)"
  obtain x wx where cc: "complete node (OpCompile ?b3) ?ws = (x, wx)"
    by (cases "complete node (OpCompile ?b3) ?ws")
  have "compile_error node n [0, 0, 0] = Some ?bad" for n
    by (simp add: node_def magic_check_def)
  then have "fst (complete node (OpCompile ?b3) ?ws) = Inl ?bad"
    by (simp add: complete_def)
  with cc have rejected: "complete node (OpCompile ?b3) ?ws = (Inl ?bad, wx)" by simp
  from host_failure_propagates [where c = ca and b = ?b3 and H = node and w = wa and
      cb = ca and wb = wa and err = ?bad and m = ?m and cm = ca and wm = wa and k = 1 and
      op = "OpCompile ?b3" and rc = ThenStoreModule and w' = wx and c' = ca and r = "Inl ?bad"]
    task rejected
  have settled: "settle node 1 (ca, wa) = (Some (Inl ?bad), ca, wx)" by simp
  have "mod' (fst (snd (InWasm_get node (?a, w0)))) = None" by code_simp
  with runa have "mod' ca = None" by simp
  with settled runa have still: "mod' (fst (snd (InWasm_run node [Invoke, Resolve 1] (?a, w0)))) = None"
    by simp
  have obsa: "fst (InWasm_run node [Invoke, Resolve 1] (?a, w0)) =
      [Returned (Inr (Future (Pending 1))), Outcome (Some (Inl ?bad))]"
    by code_simp
  from first perr obs total tr second obsa still show ?thesis by simp
qed

theorem failed_invocation_changes_state_counterexample:
  "fst (InWasm_get node (fresh \<lparr>t = MODULE, s = True, d = ''AAAA'', e = JUndefined\<rparr>, w0)) =
     Inl (CompileError ''expected magic word'') \<and>
   bytes (fresh \<lparr>t = MODULE, s = True, d = ''AAAA'', e = JUndefined\<rparr>) = None \<and>
   bytes (fst (snd (InWasm_get node
     (fresh \<lparr>t = MODULE, s = True, d = ''AAAA'', e = JUndefined\<rparr>, w0)))) =
     Some \<lparr>bref = 0, bdata = [0, 0, 0]\<rparr> \<and>
   fst (InWasm_get linking_node
     (fresh \<lparr>t = INSTANCE, s = True, d = ''AGFzbQEAAAACCgEDZW52AWcDfwA='', e = JUndefined\<rparr>, w0)) =
     Inl (TypeError
       ''Imports argument must be present and must be an object'') \<and>
   mod' (fresh \<lparr>t = INSTANCE, s = True, d = ''AGFzbQEAAAACCgEDZW52AWcDfwA='', e = JUndefined\<rparr>) =
     None \<and>
   mod' (fst (snd (InWasm_get linking_node
     (fresh \<lparr>t = INSTANCE, s = True, d = ''AGFzbQEAAAACCgEDZW52AWcDfwA='', e = JUndefined\<rparr>, w0)))) =
     Some \<lparr>mref = 1, mcode = importing_module\<rparr>"
  by code_simp


section \<open>What the two loaders deliver\<close>

lemma dec_data:
  assumes "dec H x w = (Inr b, w1)" and "dec H x w' = (Inr b', w1')"
  shows "bdata b' = bdata b"
  using assms by (auto simp: dec_eq split: option.splits sum.splits)

lemma bytes_or_dec_inv:
  assumes "\<forall>w b w1. dec H (d c) w = (Inr b, w1) \<longrightarrow> bdata b = bs" and "cache_ok bs c"
    and "bytes_or_dec H (c, w) = (r, c1, w1)"
  shows "cache_ok bs c1 \<and> (\<forall>b. r = Inr b \<longrightarrow> bdata b = bs)"
proof (cases "bytes c")
  case None
  obtain x w' where dd: "dec H (d c) w = (x, w')" by (cases "dec H (d c) w")
  show ?thesis
  proof (cases x)
    case (Inl err)
    with assms None dd show ?thesis by (auto simp: bytes_or_dec_eq)
  next
    case (Inr b)
    with assms(1) dd have "bdata b = bs" by blast
    with assms(2,3) None dd Inr show ?thesis
      by (auto simp: bytes_or_dec_eq cache_ok_def split: option.splits)
  qed
next
  case (Some b)
  with assms(2,3) show ?thesis by (auto simp: bytes_or_dec_eq cache_ok_def)
qed

lemma mod_or_new_inv:
  assumes "\<forall>w b w1. dec H (d c) w = (Inr b, w1) \<longrightarrow> bdata b = bs" and "cache_ok bs c"
    and "mod_or_new H (c, w) = (r, c1, w1)"
  shows "cache_ok bs c1 \<and> (\<forall>m. r = Inr m \<longrightarrow> mcode m = bs)"
proof (cases "mod' c")
  case None
  obtain x c' w' where bb: "bytes_or_dec H (c, w) = (x, c', w')"
    by (cases "bytes_or_dec H (c, w)")
  note inv = bytes_or_dec_inv [OF assms(1,2) bb]
  show ?thesis
  proof (cases x)
    case (Inl err)
    with assms(3) None bb inv show ?thesis by (auto simp: mod_or_new_eq)
  next
    case (Inr b)
    with inv have b: "bdata b = bs" and c': "cache_ok bs c'" by simp_all
    obtain y w'' where nn: "new_Module H b w' = (y, w'')" by (cases "new_Module H b w'")
    show ?thesis
    proof (cases y)
      case (Inl err)
      with assms(3) None bb \<open>x = Inr b\<close> nn c' show ?thesis by (auto simp: mod_or_new_eq)
    next
      case (Inr m)
      with nn have "mcode m = bdata b"
        by (auto simp: new_Module_eq split: option.splits)
      with assms(3) None bb \<open>x = Inr b\<close> nn Inr b c' show ?thesis
        by (auto simp: mod_or_new_eq cache_ok_def split: option.splits)
    qed
  qed
next
  case (Some m)
  with assms(2,3) show ?thesis by (auto simp: mod_or_new_eq cache_ok_def)
qed

lemma tasks_ok_log [simp]: "tasks_ok ty bs imp (log ev w) = tasks_ok ty bs imp w"
  by (simp add: tasks_ok_def)

lemma tasks_ok_next_ref [simp]: "tasks_ok ty bs imp (w\<lparr>next_ref := n\<rparr>) = tasks_ok ty bs imp w"
  by (simp add: tasks_ok_def)

lemma tasks_ok_W_async:
  "tasks_ok ty bs imp w \<Longrightarrow> task_ok ty bs imp (op, r) \<Longrightarrow> W_async op r w = (x, w1) \<Longrightarrow>
    tasks_ok ty bs imp w1 \<and> x = Inr (Future (Pending (next_ref w)))"
  by (auto simp: W_async_eq tasks_ok_def)

lemma InWasm_get_inv:
  assumes dec: "\<forall>w b w1. dec H (d c) w = (Inr b, w1) \<longrightarrow> bdata b = bs"
    and inv: "cache_ok bs c" "tasks_ok (t c) bs (env (e c)) w"
    and get: "InWasm_get H (c, w) = (r, c1, w1)"
  shows "cache_ok bs c1 \<and> tasks_ok (t c) bs (env (e c)) w1 \<and>
    list_all (\<lambda>k. k = expected (t c) bs (env (e c))) (obs_content (Returned r))"
proof -
  obtain rb cb wb where bb: "bytes_or_dec H (c, w) = (rb, cb, wb)"
    by (cases "bytes_or_dec H (c, w)")
  obtain rm cm wm where mm: "mod_or_new H (c, w) = (rm, cm, wm)"
    by (cases "mod_or_new H (c, w)")
  note ib = bytes_or_dec_inv [OF dec inv(1) bb] and im = mod_or_new_inv [OF dec inv(1) mm]
  have pb: "pending wb = pending w" using bytes_or_dec_frame [OF bb] by simp
  have pm: "pending wm = pending w" using mod_or_new_frame [OF mm] by simp
  from pb inv(2) have tb: "tasks_ok (t c) bs (env (e c)) wb" by (simp add: tasks_ok_def)
  from pm inv(2) have tm: "tasks_ok (t c) bs (env (e c)) wm" by (simp add: tasks_ok_def)
  show ?thesis
  proof (cases "t c")
    case BYTES
    with get bb ib tb show ?thesis
      by (cases rb) (auto simp: get_BYTES expected_def)
  next
    case MODULE
    show ?thesis
    proof (cases "s c")
      case True
      with get MODULE mm im tm show ?thesis
        by (cases rm) (auto simp: get_MODULE_SYNC expected_def)
    next
      case False
      show ?thesis
      proof (cases "mod' c")
        case (Some m)
        with inv(1) have "mcode m = bs" by (simp add: cache_ok_def)
        with get MODULE False Some inv show ?thesis
          by (auto simp: get_MODULE_ASYNC expected_def)
      next
        case None
        show ?thesis
        proof (cases rb)
          case (Inl err)
          with get MODULE False None bb ib tb show ?thesis
            by (auto simp: get_MODULE_ASYNC)
        next
          case (Inr b)
          with ib have "task_ok (t c) bs (env (e c)) (OpCompile b, ThenStoreModule)"
            using MODULE by simp
          from tasks_ok_W_async [OF tb this] get MODULE False None bb Inr ib show ?thesis
            by (cases "W_async (OpCompile b) ThenStoreModule wb") (auto simp: get_MODULE_ASYNC)
        qed
      qed
    qed
  next
    case INSTANCE
    show ?thesis
    proof (cases "s c")
      case True
      show ?thesis
      proof (cases rm)
        case (Inl err)
        with get INSTANCE True mm im tm show ?thesis
          by (auto simp: get_INSTANCE_SYNC)
      next
        case (Inr m)
        with im have m: "mcode m = bs" and cm: "cache_ok bs cm" by simp_all
        obtain y w' where ii: "new_Instance H m (env (e c)) wm = (y, w')"
          by (cases "new_Instance H m (env (e c)) wm")
        show ?thesis
        proof (cases y)
          case (Inl err)
          with ii have "w' = log (NewInstance m (env (e c))) wm"
            by (auto simp: new_Instance_eq split: option.splits)
          with get INSTANCE True mm \<open>rm = Inr m\<close> ii Inl cm tm show ?thesis
            by (auto simp: get_INSTANCE_SYNC)
        next
          case (Inr i)
          from new_Instance_ok [of H m "env (e c)" wm i w'] ii Inr
          have "i = \<lparr>iref = next_ref wm, imodule = m, iimports = env (e c)\<rparr>"
            "w' = (log (NewInstance m (env (e c))) wm)\<lparr>next_ref := Suc (next_ref wm)\<rparr>"
            by simp_all
          with get INSTANCE True mm \<open>rm = Inr m\<close> ii Inr cm tm m show ?thesis
            by (auto simp: get_INSTANCE_SYNC expected_def)
        qed
      qed
    next
      case False
      show ?thesis
      proof (cases "mod' c")
        case (Some m)
        with inv(1) have "mcode m = bs" by (simp add: cache_ok_def)
        then have "task_ok (t c) bs (env (e c)) (OpInstantiateModule m (env (e c)), NoThen)"
          using INSTANCE by simp
        from tasks_ok_W_async [OF inv(2) this] get INSTANCE False Some inv(1) show ?thesis
          by (cases "W_async (OpInstantiateModule m (env (e c))) NoThen w")
            (auto simp: get_INSTANCE_ASYNC)
      next
        case None
        show ?thesis
        proof (cases rb)
          case (Inl err)
          with get INSTANCE False None bb ib tb show ?thesis
            by (auto simp: get_INSTANCE_ASYNC)
        next
          case (Inr b)
          with ib have "task_ok (t c) bs (env (e c))
              (OpInstantiateBytes b (env (e c)), ThenStoreModuleGetInstance)"
            using INSTANCE by simp
          from tasks_ok_W_async [OF tb this] get INSTANCE False None bb Inr ib show ?thesis
            by (cases "W_async (OpInstantiateBytes b (env (e c))) ThenStoreModuleGetInstance wb")
              (auto simp: get_INSTANCE_ASYNC)
        qed
      qed
    qed
  qed
qed

lemma complete_inv:
  assumes "task_ok ty bs imp (op, r)" and "complete H op w = (Inr v, w1)"
  shows "content (then_value r v) = expected ty bs imp \<and>
    (\<forall>m. then_store r v = Some m \<longrightarrow> mcode m = bs) \<and> pending w1 = pending w"
proof (cases op)
  case (OpCompile b)
  with assms complete_compile [of H b w v w1] show ?thesis
    by (cases r) (auto simp: expected_def)
next
  case (OpInstantiateBytes b i)
  with assms complete_instantiate_bytes [of H b i w v w1] show ?thesis
    by (cases r) (auto simp: expected_def)
next
  case (OpInstantiateModule m i)
  with assms complete_instantiate_module [of H m i w v w1] show ?thesis
    by (cases r) (auto simp: expected_def)
qed

lemma tasks_ok_filter:
  "tasks_ok ty bs imp w \<Longrightarrow> pending w1 = filter P (pending w) \<Longrightarrow> tasks_ok ty bs imp w1"
  by (simp add: tasks_ok_def list_all_iff)

lemma tasks_ok_lookup:
  "tasks_ok ty bs imp w \<Longrightarrow> map_of (pending w) k = Some task \<Longrightarrow> task_ok ty bs imp task"
proof -
  assume ok: "tasks_ok ty bs imp w" and look: "map_of (pending w) k = Some task"
  from look have "(k, task) \<in> set (pending w)" by (rule map_of_SomeD)
  with ok have "task_ok ty bs imp (snd (k, task))"
    unfolding tasks_ok_def list_all_iff by blast
  then show ?thesis by simp
qed

lemma settle_inv:
  assumes inv: "cache_ok bs c" "tasks_ok ty bs imp w"
    and st: "settle H k (c, w) = (r, c1, w1)"
  shows "cache_ok bs c1 \<and> tasks_ok ty bs imp w1 \<and>
    list_all (\<lambda>k. k = expected ty bs imp) (obs_content (Outcome r))"
proof (cases "map_of (pending w) k")
  case None
  with st inv show ?thesis by (auto simp: settle_def)
next
  case (Some task)
  obtain op rc where task: "task = (op, rc)" by (cases task)
  let ?w = "log (Settle k) (w\<lparr>pending := filter (\<lambda>p. fst p \<noteq> k) (pending w)\<rparr>)"
  have ok: "task_ok ty bs imp (op, rc)"
    using tasks_ok_lookup [OF inv(2) Some] task by simp
  have tw: "tasks_ok ty bs imp ?w"
    by (rule tasks_ok_filter [OF inv(2), of _ "\<lambda>p. fst p \<noteq> k"]) simp
  obtain x w' where cc: "complete H op ?w = (x, w')" by (cases "complete H op ?w")
  show ?thesis
  proof (cases x)
    case (Inl err)
    with complete_error [of H op ?w err w'] cc have "w' = ?w" by simp
    with st Some task cc Inl inv(1) tw show ?thesis by (auto simp: settle_def)
  next
    case (Inr v)
    from complete_inv [OF ok, of H ?w v w'] cc Inr
    have v: "content (then_value rc v) = expected ty bs imp"
      and m: "\<forall>m. then_store rc v = Some m \<longrightarrow> mcode m = bs"
      and p: "pending w' = pending ?w"
      by simp_all
    from p tw have tw': "tasks_ok ty bs imp w'" by (simp add: tasks_ok_def)
    have c1: "cache_ok bs (case then_store rc v of Some m \<Rightarrow> c\<lparr>mod' := Some m\<rparr> | None \<Rightarrow> c)"
      using m inv(1) by (auto simp: cache_ok_def split: option.splits)
    from st Some task cc Inr v c1 tw' show ?thesis by (auto simp: settle_def)
  qed
qed

lemma InWasm_step_inv:
  assumes dec: "\<forall>w b w1. dec H (d c) w = (Inr b, w1) \<longrightarrow> bdata b = bs"
    and inv: "cache_ok bs c" "tasks_ok (t c) bs (env (e c)) w"
    and st: "InWasm_step H a (c, w) = (x, c1, w1)"
  shows "cache_ok bs c1 \<and> tasks_ok (t c) bs (env (e c)) w1 \<and>
    list_all (\<lambda>k. k = expected (t c) bs (env (e c))) (obs_content x) \<and>
    t c1 = t c \<and> e c1 = e c \<and> d c1 = d c"
proof (cases a)
  case Invoke
  obtain r where g: "InWasm_get H (c, w) = (r, c1, w1)" and x: "x = Returned r"
    using st Invoke by (cases "InWasm_get H (c, w)") auto
  from InWasm_get_inv [OF dec inv g] InWasm_get_frame [OF g] x show ?thesis by simp
next
  case (Resolve k)
  obtain r where g: "settle H k (c, w) = (r, c1, w1)" and x: "x = Outcome r"
    using st Resolve by (cases "settle H k (c, w)") auto
  from settle_inv [OF inv g] settle_frame [OF g] x show ?thesis by simp
qed

lemma InWasm_run_inv:
  "\<forall>w b w1. dec H (d c) w = (Inr b, w1) \<longrightarrow> bdata b = bs \<Longrightarrow> cache_ok bs c \<Longrightarrow>
   tasks_ok (t c) bs (env (e c)) w \<Longrightarrow>
    list_all (\<lambda>x. list_all (\<lambda>k. k = expected (t c) bs (env (e c))) (obs_content x))
      (fst (InWasm_run H acts (c, w)))"
proof (induction acts arbitrary: c w)
  case Nil
  show ?case by simp
next
  case (Cons a acts)
  obtain x c' w' where st: "InWasm_step H a (c, w) = (x, c', w')"
    by (cases "InWasm_step H a (c, w)")
  from InWasm_step_inv [OF Cons.prems st]
  have step: "cache_ok bs c'" "tasks_ok (t c) bs (env (e c)) w'"
    "list_all (\<lambda>k. k = expected (t c) bs (env (e c))) (obs_content x)"
    and same: "t c' = t c" "e c' = e c" "d c' = d c"
    by simp_all
  have "list_all (\<lambda>x. list_all (\<lambda>k. k = expected (t c') bs (env (e c'))) (obs_content x))
      (fst (InWasm_run H acts (c', w')))"
    using Cons.prems(1) step(1,2) same by (intro Cons.IH) simp_all
  with step(3) same st show ?case
    by (cases "InWasm_run H acts (c', w')") simp
qed

lemma EmWasm_get_inv:
  assumes "bdata (em_bytes g) = bs" "tasks_ok (t g) bs (env (e g)) w"
    and "EmWasm_get H g w = (r, w1)"
  shows "tasks_ok (t g) bs (env (e g)) w1 \<and>
    list_all (\<lambda>k. k = expected (t g) bs (env (e g))) (obs_content (Returned r))"
proof (cases "t g")
  case BYTES
  with assms show ?thesis
    by (auto simp: EmWasm_get_def returnE_def expected_def split: if_splits)
next
  case MODULE
  show ?thesis
  proof (cases "s g")
    case True
    with assms MODULE show ?thesis
      by (auto simp: EmWasm_get_def returnE_def bindE_def new_Module_eq expected_def
          split: option.splits)
  next
    case False
    from assms(1) MODULE have "task_ok (t g) bs (env (e g)) (OpCompile (em_bytes g), NoThen)"
      by simp
    from tasks_ok_W_async [OF assms(2) this] assms(3) MODULE False show ?thesis
      by (auto simp: EmWasm_get_def)
  qed
next
  case INSTANCE
  show ?thesis
  proof (cases "s g")
    case True
    with assms INSTANCE show ?thesis
      by (auto simp: EmWasm_get_def returnE_def bindE_def new_Module_eq new_Instance_eq
          expected_def split: option.splits)
  next
    case False
    from assms(1) INSTANCE have "task_ok (t g) bs (env (e g))
        (OpInstantiateBytes (em_bytes g) (env (e g)), ThenGetInstance)"
      by simp
    from tasks_ok_W_async [OF assms(2) this] assms(3) INSTANCE False show ?thesis
      by (auto simp: EmWasm_get_def)
  qed
qed

lemma em_settle_inv:
  assumes inv: "tasks_ok ty bs imp w" and st: "em_settle H k w = (r, w1)"
  shows "tasks_ok ty bs imp w1 \<and> list_all (\<lambda>k. k = expected ty bs imp) (obs_content (Outcome r))"
proof (cases "map_of (pending w) k")
  case None
  with st inv show ?thesis by (auto simp: em_settle_def)
next
  case (Some task)
  obtain op rc where task: "task = (op, rc)" by (cases task)
  let ?w = "log (Settle k) (w\<lparr>pending := filter (\<lambda>p. fst p \<noteq> k) (pending w)\<rparr>)"
  have ok: "task_ok ty bs imp (op, rc)"
    using tasks_ok_lookup [OF inv Some] task by simp
  have tw: "tasks_ok ty bs imp ?w"
    by (rule tasks_ok_filter [OF inv, of _ "\<lambda>p. fst p \<noteq> k"]) simp
  obtain x w' where cc: "complete H op ?w = (x, w')" by (cases "complete H op ?w")
  show ?thesis
  proof (cases x)
    case (Inl err)
    with complete_error [of H op ?w err w'] cc have "w' = ?w" by simp
    with st Some task cc Inl tw show ?thesis by (auto simp: em_settle_def)
  next
    case (Inr v)
    from complete_inv [OF ok, of H ?w v w'] cc Inr
    have v: "content (then_value rc v) = expected ty bs imp" and p: "pending w' = pending ?w"
      by simp_all
    from p tw have "tasks_ok ty bs imp w'" by (simp add: tasks_ok_def)
    with st Some task cc Inr v show ?thesis by (auto simp: em_settle_def)
  qed
qed

lemma EmWasm_run_inv:
  "bdata (em_bytes g) = bs \<Longrightarrow> tasks_ok (t g) bs (env (e g)) w \<Longrightarrow>
    list_all (\<lambda>x. list_all (\<lambda>k. k = expected (t g) bs (env (e g))) (obs_content x))
      (fst (EmWasm_run H g acts w))"
proof (induction acts arbitrary: w)
  case Nil
  show ?case by simp
next
  case (Cons a acts)
  obtain x w' where st: "EmWasm_step H g a w = (x, w')"
    by (cases "EmWasm_step H g a w")
  have step: "tasks_ok (t g) bs (env (e g)) w' \<and>
      list_all (\<lambda>k. k = expected (t g) bs (env (e g))) (obs_content x)"
  proof (cases a)
    case Invoke
    with st obtain r where "EmWasm_get H g w = (r, w')" "x = Returned r"
      by (cases "EmWasm_get H g w") auto
    with EmWasm_get_inv [OF Cons.prems, of H r w'] show ?thesis by simp
  next
    case (Resolve k)
    with st obtain r where "em_settle H k w = (r, w')" "x = Outcome r"
      by (cases "em_settle H k w") auto
    with em_settle_inv [OF Cons.prems(2), of H k r w'] show ?thesis by simp
  qed
  then have "list_all (\<lambda>x. list_all (\<lambda>k. k = expected (t g) bs (env (e g))) (obs_content x))
      (fst (EmWasm_run H g acts w'))"
    using Cons.prems(1) by (intro Cons.IH) simp_all
  with step st show ?case
    by (cases "EmWasm_run H g acts w'") simp
qed

lemma no_tasks_ok: "pending w = [] \<Longrightarrow> tasks_ok ty bs imp w"
  by (simp add: tasks_ok_def)

lemma EmWasm_Getter:
  assumes "EmWasm H (Compiled c) w = (Inr (Getter g), wg)"
  shows "d c \<noteq> [] \<and> dec H (d c) w = (Inr (em_bytes g), wg) \<and> t g = t c \<and> s g = s c \<and>
    e g = e c \<and> pending wg = pending w"
proof -
  from assms have nonempty: "d c \<noteq> []"
    by (auto simp: EmWasm_compiled split: if_splits option.splits prod.splits)
  obtain x w' where dd: "dec H (d c) w = (x, w')" by (cases "dec H (d c) w")
  show ?thesis
  proof (cases x)
    case (Inl err)
    with assms nonempty dd show ?thesis by (simp add: EmWasm_compiled)
  next
    case (Inr b)
    with assms nonempty dd have g: "g = \<lparr>t = t c, s = s c, d = d c, e = e c, em_bytes = b\<rparr>"
      and wg: "wg = w'"
      by (simp_all add: EmWasm_compiled)
    from dec_ok [of H "d c" w b w'] dd Inr have "pending w' = pending w"
      by (simp add: log_def)
    with g wg dd Inr nonempty show ?thesis by simp
  qed
qed

text \<open>
  The two getters deliver the same. Both deliver what is due: for \<open>InWasm\<close> because a
  stored module witnesses that the engine compiles the bytes.
\<close>

lemma decode_fails:
  assumes "bytes c = None" "t c = BYTES \<or> mod' c = None" "dec H (d c) w = (Inl err, w1)"
  shows "InWasm_get H (c, w) = (Inl err, c, w1)"
proof -
  from assms(1,3) have bb: "bytes_or_dec H (c, w) = (Inl err, c, w1)"
    by (simp add: bytes_or_dec_eq)
  show ?thesis
  proof (cases "t c")
    case BYTES
    with bb show ?thesis by (simp add: get_BYTES)
  next
    case MODULE
    with assms(2) have "mod' c = None" by simp
    with bb MODULE show ?thesis
      by (cases "s c") (simp_all add: get_MODULE_SYNC get_MODULE_ASYNC mod_or_new_eq)
  next
    case INSTANCE
    with assms(2) have "mod' c = None" by simp
    with bb INSTANCE show ?thesis
      by (cases "s c") (simp_all add: get_INSTANCE_SYNC get_INSTANCE_ASYNC mod_or_new_eq)
  qed
qed

lemma steadyD:
  "steady H \<Longrightarrow> compile_error H n code = compile_error H 0 code"
  "steady H \<Longrightarrow> link_error H n code imp = link_error H 0 code imp"
  unfolding steady_def by blast+

lemma settle_fst:
  "map_of (pending w) k = Some (op, rc) \<Longrightarrow>
    fst (settle H k (c, w)) =
      Some (case fst (complete H op
                (log (Settle k) (w\<lparr>pending := filter (\<lambda>p. fst p \<noteq> k) (pending w)\<rparr>))) of
              Inl err \<Rightarrow> Inl err
            | Inr v \<Rightarrow> Inr (then_value rc v))"
  by (simp add: settle_def split: prod.split sum.split)

lemma em_settle_fst:
  "map_of (pending w) k = Some (op, rc) \<Longrightarrow>
    fst (em_settle H k w) =
      Some (case fst (complete H op
                (log (Settle k) (w\<lparr>pending := filter (\<lambda>p. fst p \<noteq> k) (pending w)\<rparr>))) of
              Inl err \<Rightarrow> Inl err
            | Inr v \<Rightarrow> Inr (then_value rc v))"
  by (simp add: em_settle_def split: prod.split sum.split)

lemma complete_verdict:
  assumes st: "steady H" and ok: "task_ok ty bs imp (op, rc)"
    and sound: "\<forall>m i. op = OpInstantiateModule m i \<longrightarrow> compile_error H 0 bs = None"
  shows "settled (Some (case fst (complete H op w) of
            Inl err \<Rightarrow> Inl err | Inr v \<Rightarrow> Inr (then_value rc v))) =
    Promised (verdict H ty bs imp)"
proof (cases op)
  case (OpCompile b)
  with ok have ty: "ty = MODULE" and b: "bdata b = bs" by simp_all
  have ce: "compile_error H (length (trace w)) bs = compile_error H 0 bs"
    using st by (rule steadyD)
  show ?thesis
    using OpCompile ty b ce
    by (cases rc; cases "compile_error H 0 bs")
      (simp_all add: complete_def alloc_def verdict_def expected_def)
next
  case (OpInstantiateBytes b i)
  with ok have ty: "ty = INSTANCE" and b: "bdata b = bs" and i: "i = imp"
    and rc: "rc = ThenStoreModuleGetInstance \<or> rc = ThenGetInstance"
    by simp_all
  have ce: "compile_error H (length (trace w)) bs = compile_error H 0 bs"
    using st by (rule steadyD)
  have le: "link_error H (length (trace w)) bs imp = link_error H 0 bs imp"
    using st by (rule steadyD)
  show ?thesis
    using OpInstantiateBytes ty b i rc ce le
    by (cases "compile_error H 0 bs"; cases "link_error H 0 bs imp")
      (auto simp: complete_def alloc_def verdict_def expected_def Let_def)
next
  case (OpInstantiateModule m i)
  with ok have ty: "ty = INSTANCE" and m: "mcode m = bs" and i: "i = imp" by simp_all
  from sound OpInstantiateModule have ce: "compile_error H 0 bs = None" by simp
  have le: "link_error H (length (trace w)) bs imp = link_error H 0 bs imp"
    using st by (rule steadyD)
  show ?thesis
    using OpInstantiateModule ty m i ce le
    by (cases rc; cases "link_error H 0 bs imp")
      (simp_all add: complete_def alloc_def verdict_def expected_def)
qed

lemma new_task_settles:
  assumes st: "steady H" and fr: "fresh_ids w" and ok: "task_ok ty bs imp (op, rc)"
    and sound: "\<forall>m i. op = OpInstantiateModule m i \<longrightarrow> compile_error H 0 bs = None"
  shows "settled (fst (settle H (next_ref w) (c, snd (W_async op rc w)))) =
      Promised (verdict H ty bs imp) \<and>
    settled (fst (em_settle H (next_ref w) (snd (W_async op rc w)))) =
      Promised (verdict H ty bs imp)"
proof -
  let ?w = "snd (W_async op rc w)"
  have p: "pending ?w = pending w @ [(next_ref w, op, rc)]" by (simp add: W_async_eq)
  from map_of_fresh [OF fr _ p] have look: "map_of (pending ?w) (next_ref w) = Some (op, rc)"
    by simp
  show ?thesis
    unfolding settle_fst [OF look] em_settle_fst [OF look]
    using complete_verdict [OF st ok sound] by simp
qed

lemma bytes_or_dec_total:
  assumes dok: "\<forall>w. dec H (d c) w =
      (Inr \<lparr>bref = next_ref w, bdata = bs\<rparr>, (log (Decode (d c)) w)\<lparr>next_ref := Suc (next_ref w)\<rparr>)"
    and cache: "cache_ok bs c"
  shows "\<exists>b wb. bytes_or_dec H (c, w) = (Inr b, c\<lparr>bytes := Some b\<rparr>, wb) \<and> bdata b = bs \<and>
    pending wb = pending w \<and> next_ref w \<le> next_ref wb \<and> (fresh_ids w \<longrightarrow> fresh_ids wb)"
proof (cases "bytes c")
  case None
  with dok show ?thesis
    by (auto simp: bytes_or_dec_eq fresh_ids_def)
next
  case (Some b)
  with cache show ?thesis by (simp add: bytes_or_dec_eq cache_ok_def)
qed

lemma due_simps:
  "due H BYTES True bs imp = Handed (BYTES, bs, [])"
  "verdict H BYTES bs imp = Inr (BYTES, bs, [])"
  "compile_error H 0 bs = Some err \<Longrightarrow> ty \<noteq> BYTES \<Longrightarrow> due H ty True bs imp = Thrown err"
  "compile_error H 0 bs = None \<Longrightarrow> due H MODULE True bs imp = Handed (MODULE, bs, [])"
  "compile_error H 0 bs = None \<Longrightarrow> link_error H 0 bs imp = Some err \<Longrightarrow>
     due H INSTANCE True bs imp = Thrown err"
  "compile_error H 0 bs = None \<Longrightarrow> link_error H 0 bs imp = None \<Longrightarrow>
     due H INSTANCE True bs imp = Handed (INSTANCE, bs, [imp])"
  "due H ty False bs imp = Promised (verdict H ty bs imp)"
  "compile_error H 0 bs = None \<Longrightarrow> verdict H MODULE bs imp = Inr (MODULE, bs, [])"
  by (simp_all add: due_def verdict_def expected_def)

lemma InWasm_delivers_due:
  assumes st: "steady H"
    and dok: "\<forall>w. dec H (d c) w =
      (Inr \<lparr>bref = next_ref w, bdata = bs\<rparr>, (log (Decode (d c)) w)\<lparr>next_ref := Suc (next_ref w)\<rparr>)"
    and cache: "cache_ok bs c" and sound: "mod' c \<noteq> None \<longrightarrow> compile_error H 0 bs = None"
    and fr: "fresh_ids w"
  shows "InWasm_delivers H (c, w) = due H (t c) (s c) bs (env (e c))"
proof -
  from bytes_or_dec_total [OF dok cache, of w]
  obtain b wb where bb: "bytes_or_dec H (c, w) = (Inr b, c\<lparr>bytes := Some b\<rparr>, wb)"
    and b: "bdata b = bs" and frb: "fresh_ids wb"
    using fr by blast
  have ce: "compile_error H (length (trace wb)) bs = compile_error H 0 bs"
    using st by (rule steadyD)
  show ?thesis
  proof (cases "t c")
    case BYTES
    with bb b show ?thesis
      by (cases "s c") (simp_all add: InWasm_delivers_def get_BYTES due_simps)
  next
    case MODULE
    show ?thesis
    proof (cases "mod' c")
      case (Some m)
      with cache sound have m: "mcode m = bs" and ok: "compile_error H 0 bs = None"
        by (simp_all add: cache_ok_def)
      with MODULE Some show ?thesis
        by (cases "s c")
          (simp_all add: InWasm_delivers_def get_MODULE_SYNC get_MODULE_ASYNC mod_or_new_eq
            due_simps)
    next
      case None
      show ?thesis
      proof (cases "s c")
        case True
        with MODULE None bb b ce show ?thesis
          by (cases "compile_error H 0 bs")
            (simp_all add: InWasm_delivers_def get_MODULE_SYNC mod_or_new_eq new_Module_eq
              due_simps)
      next
        case False
        have "task_ok MODULE bs (env (e c)) (OpCompile b, ThenStoreModule)" using b by simp
        from new_task_settles [OF st frb this, of "c\<lparr>bytes := Some b\<rparr>"]
        have "settled (fst (settle H (next_ref wb)
            (c\<lparr>bytes := Some b\<rparr>, snd (W_async (OpCompile b) ThenStoreModule wb)))) =
            Promised (verdict H MODULE bs (env (e c)))"
          by simp
        with MODULE None False bb show ?thesis
          by (simp add: InWasm_delivers_def get_MODULE_ASYNC W_async_eq due_simps)
      qed
    qed
  next
    case INSTANCE
    show ?thesis
    proof (cases "s c")
      case True
      show ?thesis
      proof (cases "mod' c")
        case (Some m)
        with cache sound have m: "mcode m = bs" and ok: "compile_error H 0 bs = None"
          by (simp_all add: cache_ok_def)
        have le: "link_error H (length (trace w)) bs (env (e c)) = link_error H 0 bs (env (e c))"
          using st by (rule steadyD)
        from INSTANCE True Some m ok le show ?thesis
          by (cases "link_error H 0 bs (env (e c))")
            (simp_all add: InWasm_delivers_def get_INSTANCE_SYNC mod_or_new_eq new_Instance_eq
              due_simps)
      next
        case None
        have le: "link_error H n bs (env (e c)) = link_error H 0 bs (env (e c))" for n
          using st by (rule steadyD)
        from INSTANCE True None bb b ce le show ?thesis
          by (cases "compile_error H 0 bs"; cases "link_error H 0 bs (env (e c))")
            (simp_all add: InWasm_delivers_def get_INSTANCE_SYNC mod_or_new_eq new_Module_eq
              new_Instance_eq due_simps)
      qed
    next
      case False
      show ?thesis
      proof (cases "mod' c")
        case (Some m)
        with cache sound have m: "mcode m = bs" and ok: "compile_error H 0 bs = None"
          by (simp_all add: cache_ok_def)
        have "task_ok INSTANCE bs (env (e c)) (OpInstantiateModule m (env (e c)), NoThen)"
          using m by simp
        from new_task_settles [OF st fr this, of c] ok
        have "settled (fst (settle H (next_ref w)
            (c, snd (W_async (OpInstantiateModule m (env (e c))) NoThen w)))) =
            Promised (verdict H INSTANCE bs (env (e c)))"
          by simp
        with INSTANCE False Some show ?thesis
          by (simp add: InWasm_delivers_def get_INSTANCE_ASYNC W_async_eq due_simps)
      next
        case None
        have "task_ok INSTANCE bs (env (e c))
            (OpInstantiateBytes b (env (e c)), ThenStoreModuleGetInstance)"
          using b by simp
        from new_task_settles [OF st frb this, of "c\<lparr>bytes := Some b\<rparr>"]
        have "settled (fst (settle H (next_ref wb)
            (c\<lparr>bytes := Some b\<rparr>,
             snd (W_async (OpInstantiateBytes b (env (e c))) ThenStoreModuleGetInstance wb)))) =
            Promised (verdict H INSTANCE bs (env (e c)))"
          by simp
        with INSTANCE False None bb show ?thesis
          by (simp add: InWasm_delivers_def get_INSTANCE_ASYNC W_async_eq due_simps)
      qed
    qed
  qed
qed

lemma EmWasm_delivers_due:
  assumes st: "steady H" and b: "bdata (em_bytes g) = bs" and fr: "fresh_ids w"
  shows "EmWasm_delivers H g w = due H (t g) (s g) bs (env (e g))"
proof (cases "t g")
  case BYTES
  with b show ?thesis
    by (cases "s g") (simp_all add: EmWasm_delivers_def EmWasm_get_def returnE_def due_simps)
next
  case MODULE
  show ?thesis
  proof (cases "s g")
    case True
    have ce: "compile_error H (length (trace w)) bs = compile_error H 0 bs"
      using st by (rule steadyD)
    with MODULE True b show ?thesis
      by (cases "compile_error H 0 bs")
        (simp_all add: EmWasm_delivers_def EmWasm_get_def returnE_def bindE_def new_Module_eq
          due_simps)
  next
    case False
    have "task_ok MODULE bs (env (e g)) (OpCompile (em_bytes g), NoThen)" using b by simp
    from new_task_settles [OF st fr this]
    have "settled (fst (em_settle H (next_ref w) (snd (W_async (OpCompile (em_bytes g)) NoThen w)))) =
        Promised (verdict H MODULE bs (env (e g)))"
      by simp
    with MODULE False show ?thesis
      by (simp add: EmWasm_delivers_def EmWasm_get_def W_async_eq due_simps)
  qed
next
  case INSTANCE
  show ?thesis
  proof (cases "s g")
    case True
    have ce: "compile_error H (length (trace w)) bs = compile_error H 0 bs"
      using st by (rule steadyD)
    have le: "link_error H n bs (env (e g)) = link_error H 0 bs (env (e g))" for n
      using st by (rule steadyD)
    from INSTANCE True b ce le show ?thesis
      by (cases "compile_error H 0 bs"; cases "link_error H 0 bs (env (e g))")
        (simp_all add: EmWasm_delivers_def EmWasm_get_def returnE_def bindE_def new_Module_eq
          new_Instance_eq due_simps)
  next
    case False
    have "task_ok INSTANCE bs (env (e g))
        (OpInstantiateBytes (em_bytes g) (env (e g)), ThenGetInstance)"
      using b by simp
    from new_task_settles [OF st fr this]
    have "settled (fst (em_settle H (next_ref w)
        (snd (W_async (OpInstantiateBytes (em_bytes g) (env (e g))) ThenGetInstance w)))) =
        Promised (verdict H INSTANCE bs (env (e g)))"
      by simp
    with INSTANCE False show ?thesis
      by (simp add: EmWasm_delivers_def EmWasm_get_def W_async_eq due_simps)
  qed
qed


lemma complete_world:
  "complete H op w = (x, w1) \<Longrightarrow> pending w1 = pending w \<and> next_ref w \<le> next_ref w1"
  by (cases op) (auto simp: complete_def alloc_def Let_def split: option.splits)

lemma complete_store:
  assumes "complete H op w = (Inr v, w1)" and "then_store rc v = Some m"
  shows "\<exists>n. compile_error H n (mcode m) = None"
proof (cases op)
  case (OpCompile b)
  with assms(1) have "compile_error H (length (trace w)) (bdata b) = None"
    by (auto simp: complete_def split: option.splits)
  moreover from complete_compile [of H b w v w1] assms OpCompile have "mcode m = bdata b"
    by (cases rc) auto
  ultimately show ?thesis by auto
next
  case (OpInstantiateBytes b i)
  with assms(1) have "compile_error H (length (trace w)) (bdata b) = None"
    by (auto simp: complete_def split: option.splits)
  moreover from complete_instantiate_bytes [of H b i w v w1] assms OpInstantiateBytes
  have "mcode m = bdata b"
    by (cases rc) auto
  ultimately show ?thesis by auto
next
  case (OpInstantiateModule m' i)
  with complete_instantiate_module [of H m' i w v w1] assms show ?thesis
    by (cases rc) auto
qed

lemma settle_mod:
  assumes "settle H k (c, w) = (r, c1, w1)"
  shows "mod' c1 = mod' c \<or> (\<exists>m n. mod' c1 = Some m \<and> compile_error H n (mcode m) = None)"
proof (cases "map_of (pending w) k")
  case None
  with assms show ?thesis by (simp add: settle_def)
next
  case (Some task)
  obtain op rc where task: "task = (op, rc)" by (cases task)
  let ?w = "log (Settle k) (w\<lparr>pending := filter (\<lambda>p. fst p \<noteq> k) (pending w)\<rparr>)"
  obtain x w' where cc: "complete H op ?w = (x, w')" by (cases "complete H op ?w")
  show ?thesis
  proof (cases x)
    case (Inl err)
    with assms Some task cc show ?thesis by (simp add: settle_def)
  next
    case (Inr v)
    show ?thesis
    proof (cases "then_store rc v")
      case None
      with assms Some task cc Inr show ?thesis by (simp add: settle_def)
    next
      case (Some m)
      from complete_store [of H op ?w v w' rc m] cc Inr Some
      obtain n where "compile_error H n (mcode m) = None" by auto
      moreover from assms \<open>map_of (pending w) k = Some task\<close> task cc Inr Some
      have "mod' c1 = Some m" by (auto simp: settle_def)
      ultimately show ?thesis by blast
    qed
  qed
qed

lemma settle_pending:
  assumes "settle H k (c, w) = (r, c1, w1)"
  shows "next_ref w \<le> next_ref w1 \<and> set (pending w1) \<subseteq> set (pending w)"
proof (cases "map_of (pending w) k")
  case None
  with assms show ?thesis by (simp add: settle_def)
next
  case (Some task)
  obtain op rc where task: "task = (op, rc)" by (cases task)
  let ?w = "log (Settle k) (w\<lparr>pending := filter (\<lambda>p. fst p \<noteq> k) (pending w)\<rparr>)"
  obtain x w' where cc: "complete H op ?w = (x, w')" by (cases "complete H op ?w")
  from complete_world [OF cc] have "pending w' = filter (\<lambda>p. fst p \<noteq> k) (pending w)"
    "next_ref w \<le> next_ref w'"
    by simp_all
  moreover from assms Some task cc have "w1 = w'"
    by (cases x) (simp_all add: settle_def)
  ultimately show ?thesis by auto
qed

lemma em_settle_pending:
  assumes "em_settle H k w = (r, w1)"
  shows "next_ref w \<le> next_ref w1 \<and> set (pending w1) \<subseteq> set (pending w)"
proof (cases "map_of (pending w) k")
  case None
  with assms show ?thesis by (simp add: em_settle_def)
next
  case (Some task)
  obtain op rc where task: "task = (op, rc)" by (cases task)
  let ?w = "log (Settle k) (w\<lparr>pending := filter (\<lambda>p. fst p \<noteq> k) (pending w)\<rparr>)"
  obtain x w' where cc: "complete H op ?w = (x, w')" by (cases "complete H op ?w")
  from complete_world [OF cc] have "pending w' = filter (\<lambda>p. fst p \<noteq> k) (pending w)"
    "next_ref w \<le> next_ref w'"
    by simp_all
  moreover from assms Some task cc have "w1 = w'"
    by (cases x) (simp_all add: em_settle_def)
  ultimately show ?thesis by auto
qed

lemma mod_or_new_mod:
  assumes "mod_or_new H (c, w) = (r, c1, w1)"
  shows "mod' c1 = mod' c \<or> (\<exists>m n. mod' c1 = Some m \<and> compile_error H n (mcode m) = None)"
proof (cases "mod' c")
  case None
  obtain r' c' w' where bb: "bytes_or_dec H (c, w) = (r', c', w')"
    by (cases "bytes_or_dec H (c, w)")
  from bytes_or_dec_frame [OF bb] have keep: "mod' c' = mod' c" by simp
  show ?thesis
  proof (cases r')
    case (Inl err)
    with assms None bb keep show ?thesis by (simp add: mod_or_new_eq)
  next
    case (Inr b)
    show ?thesis
    proof (cases "compile_error H (length (trace w')) (bdata b)")
      case (Some err)
      with assms None bb Inr keep show ?thesis by (simp add: mod_or_new_eq new_Module_eq)
    next
      case ok: None
      let ?m = "\<lparr>mref = next_ref w', mcode = bdata b\<rparr>"
      from assms None bb Inr ok have "mod' c1 = Some ?m"
        by (auto simp: mod_or_new_eq new_Module_eq)
      moreover from ok have "compile_error H (length (trace w')) (mcode ?m) = None" by simp
      ultimately show ?thesis by blast
    qed
  qed
next
  case (Some m)
  with assms show ?thesis by (simp add: mod_or_new_eq)
qed

lemma InWasm_get_mod:
  assumes "InWasm_get H (c, w) = (r, c1, w1)"
  shows "mod' c1 = mod' c \<or> (\<exists>m n. mod' c1 = Some m \<and> compile_error H n (mcode m) = None)"
proof -
  obtain rb cb wb where bb: "bytes_or_dec H (c, w) = (rb, cb, wb)"
    by (cases "bytes_or_dec H (c, w)")
  obtain rm cm wm where mm: "mod_or_new H (c, w) = (rm, cm, wm)"
    by (cases "mod_or_new H (c, w)")
  note fb = bytes_or_dec_frame [OF bb] and fm = mod_or_new_mod [OF mm]
  show ?thesis
  proof (cases "t c")
    case BYTES
    with assms bb fb show ?thesis by (cases rb) (auto simp: get_BYTES)
  next
    case MODULE
    show ?thesis
    proof (cases "s c")
      case True
      with assms MODULE mm fm show ?thesis by (cases rm) (auto simp: get_MODULE_SYNC)
    next
      case False
      with assms MODULE bb fb show ?thesis
        by (cases rb; cases "mod' c") (auto simp: get_MODULE_ASYNC W_async_eq)
    qed
  next
    case INSTANCE
    show ?thesis
    proof (cases "s c")
      case True
      with assms INSTANCE mm fm show ?thesis
        by (cases rm) (auto simp: get_INSTANCE_SYNC split: prod.splits sum.splits)
    next
      case False
      with assms INSTANCE bb fb show ?thesis
        by (cases rb; cases "mod' c") (auto simp: get_INSTANCE_ASYNC W_async_eq)
    qed
  qed
qed

lemma InWasm_get_pending:
  assumes "InWasm_get H (c, w) = (r, c1, w1)"
  shows "next_ref w \<le> next_ref w1 \<and>
    (pending w1 = pending w \<or>
     (\<exists>k op rc. pending w1 = pending w @ [(k, op, rc)] \<and> k < next_ref w1 \<and>
        ((\<exists>m i. op = OpInstantiateModule m i) \<longrightarrow> mod' c \<noteq> None)))"
proof -
  obtain rb cb wb where bb: "bytes_or_dec H (c, w) = (rb, cb, wb)"
    by (cases "bytes_or_dec H (c, w)")
  obtain rm cm wm where mm: "mod_or_new H (c, w) = (rm, cm, wm)"
    by (cases "mod_or_new H (c, w)")
  note fb = bytes_or_dec_frame [OF bb] and fm = mod_or_new_frame [OF mm]
  show ?thesis
  proof (cases "t c")
    case BYTES
    with assms bb fb show ?thesis by (cases rb) (auto simp: get_BYTES)
  next
    case MODULE
    show ?thesis
    proof (cases "s c")
      case True
      with assms MODULE mm fm show ?thesis by (cases rm) (auto simp: get_MODULE_SYNC)
    next
      case False
      with assms MODULE bb fb show ?thesis
        by (cases rb; cases "mod' c") (auto simp: get_MODULE_ASYNC W_async_eq)
    qed
  next
    case INSTANCE
    show ?thesis
    proof (cases "s c")
      case True
      with assms INSTANCE mm fm show ?thesis
        by (cases rm)
          (auto simp: get_INSTANCE_SYNC new_Instance_eq split: prod.splits sum.splits option.splits)
    next
      case False
      with assms INSTANCE bb fb show ?thesis
        by (cases rb; cases "mod' c") (auto simp: get_INSTANCE_ASYNC W_async_eq)
    qed
  qed
qed

lemma EmWasm_get_pending:
  assumes "EmWasm_get H g w = (r, w1)"
  shows "next_ref w \<le> next_ref w1 \<and>
    (pending w1 = pending w \<or>
     (\<exists>k op rc. pending w1 = pending w @ [(k, op, rc)] \<and> k < next_ref w1 \<and>
        (\<forall>m i. op \<noteq> OpInstantiateModule m i)))"
  using assms
  by (auto simp: EmWasm_get_def returnE_def bindE_def new_Module_eq new_Instance_eq W_async_eq
      split: if_splits option.splits)

lemma fresh_ids_grow:
  assumes "fresh_ids w" "next_ref w \<le> next_ref w1"
    and "pending w1 = pending w \<or> (\<exists>k x. pending w1 = pending w @ [(k, x)] \<and> k < next_ref w1)"
  shows "fresh_ids w1"
  using assms unfolding fresh_ids_def by fastforce

lemma fresh_ids_shrink:
  "fresh_ids w \<Longrightarrow> next_ref w \<le> next_ref w1 \<Longrightarrow> set (pending w1) \<subseteq> set (pending w) \<Longrightarrow>
    fresh_ids w1"
  unfolding fresh_ids_def by fastforce

lemma ops_sound_shrink:
  "ops_sound H bs w \<Longrightarrow> set (pending w1) \<subseteq> set (pending w) \<Longrightarrow> ops_sound H bs w1"
  unfolding ops_sound_def by fastforce

lemma ops_sound_grow:
  assumes "ops_sound H bs w"
    and "pending w1 = pending w \<or>
      (\<exists>k op rc. pending w1 = pending w @ [(k, op, rc)] \<and>
        ((\<exists>m i. op = OpInstantiateModule m i) \<longrightarrow> compile_error H 0 bs = None))"
  shows "ops_sound H bs w1"
  using assms unfolding ops_sound_def by fastforce

lemma InWasm_step_sound:
  assumes st: "steady H"
    and dec: "\<forall>w b w1. dec H (d c) w = (Inr b, w1) \<longrightarrow> bdata b = bs"
    and inv: "cache_ok bs c" "tasks_ok (t c) bs (env (e c)) w"
    and sound: "mod' c \<noteq> None \<longrightarrow> compile_error H 0 bs = None"
    and fr: "fresh_ids w" and ops: "ops_sound H bs w"
    and step: "InWasm_step H a (c, w) = (x, c1, w1)"
  shows "cache_ok bs c1 \<and> tasks_ok (t c) bs (env (e c)) w1 \<and>
    (mod' c1 \<noteq> None \<longrightarrow> compile_error H 0 bs = None) \<and> fresh_ids w1 \<and> ops_sound H bs w1 \<and>
    t c1 = t c \<and> s c1 = s c \<and> e c1 = e c \<and> d c1 = d c"
proof -
  from InWasm_step_inv [OF dec inv step]
  have old: "cache_ok bs c1" "tasks_ok (t c) bs (env (e c)) w1" by simp_all
  have stored: "mod' c1 \<noteq> None \<longrightarrow> compile_error H 0 bs = None"
    if "mod' c1 = mod' c \<or> (\<exists>m n. mod' c1 = Some m \<and> compile_error H n (mcode m) = None)"
  proof -
    from that show ?thesis
    proof
      assume "mod' c1 = mod' c"
      with sound show ?thesis by simp
    next
      assume "\<exists>m n. mod' c1 = Some m \<and> compile_error H n (mcode m) = None"
      then obtain m n where m: "mod' c1 = Some m" "compile_error H n (mcode m) = None" by blast
      with old(1) have "compile_error H n bs = None" by (simp add: cache_ok_def)
      with steadyD(1) [OF st, of n bs] show ?thesis by simp
    qed
  qed
  show ?thesis
  proof (cases a)
    case Invoke
    obtain r where g: "InWasm_get H (c, w) = (r, c1, w1)"
      using step Invoke by (cases "InWasm_get H (c, w)") auto
    note p = InWasm_get_pending [OF g]
    from p have grow: "next_ref w \<le> next_ref w1"
      "pending w1 = pending w \<or> (\<exists>k x. pending w1 = pending w @ [(k, x)] \<and> k < next_ref w1)"
      by auto
    from p sound have grow': "pending w1 = pending w \<or>
      (\<exists>k op rc. pending w1 = pending w @ [(k, op, rc)] \<and>
        ((\<exists>m i. op = OpInstantiateModule m i) \<longrightarrow> compile_error H 0 bs = None))"
      by auto
    from old stored [OF InWasm_get_mod [OF g]] fresh_ids_grow [OF fr grow]
      ops_sound_grow [OF ops grow'] InWasm_get_frame [OF g]
    show ?thesis by simp
  next
    case (Resolve k)
    obtain r where g: "settle H k (c, w) = (r, c1, w1)"
      using step Resolve by (cases "settle H k (c, w)") auto
    from settle_pending [OF g] have shrink: "next_ref w \<le> next_ref w1"
      "set (pending w1) \<subseteq> set (pending w)"
      by simp_all
    from old stored [OF settle_mod [OF g]] fresh_ids_shrink [OF fr shrink]
      ops_sound_shrink [OF ops shrink(2)] settle_frame [OF g]
    show ?thesis by simp
  qed
qed

lemma InWasm_run_sound:
  "steady H \<Longrightarrow> \<forall>w b w1. dec H (d c) w = (Inr b, w1) \<longrightarrow> bdata b = bs \<Longrightarrow> cache_ok bs c \<Longrightarrow>
   tasks_ok (t c) bs (env (e c)) w \<Longrightarrow> (mod' c \<noteq> None \<longrightarrow> compile_error H 0 bs = None) \<Longrightarrow>
   fresh_ids w \<Longrightarrow> ops_sound H bs w \<Longrightarrow> InWasm_run H acts (c, w) = (xs, c1, w1) \<Longrightarrow>
    cache_ok bs c1 \<and> tasks_ok (t c) bs (env (e c)) w1 \<and>
    (mod' c1 \<noteq> None \<longrightarrow> compile_error H 0 bs = None) \<and> fresh_ids w1 \<and> ops_sound H bs w1 \<and>
    t c1 = t c \<and> s c1 = s c \<and> e c1 = e c \<and> d c1 = d c"
proof (induction acts arbitrary: c w xs)
  case Nil
  then show ?case by simp
next
  case (Cons a acts)
  obtain x c' w' where step: "InWasm_step H a (c, w) = (x, c', w')"
    by (cases "InWasm_step H a (c, w)")
  obtain ys where rest: "InWasm_run H acts (c', w') = (ys, c1, w1)"
    using Cons.prems(8) step by (cases "InWasm_run H acts (c', w')") auto
  from InWasm_step_sound [OF Cons.prems(1-7) step]
  have now: "cache_ok bs c'" "tasks_ok (t c) bs (env (e c)) w'"
    "mod' c' \<noteq> None \<longrightarrow> compile_error H 0 bs = None" "fresh_ids w'" "ops_sound H bs w'"
    and same: "t c' = t c" "s c' = s c" "e c' = e c" "d c' = d c"
    by simp_all
  have "cache_ok bs c1 \<and> tasks_ok (t c') bs (env (e c')) w1 \<and>
    (mod' c1 \<noteq> None \<longrightarrow> compile_error H 0 bs = None) \<and> fresh_ids w1 \<and> ops_sound H bs w1 \<and>
    t c1 = t c' \<and> s c1 = s c' \<and> e c1 = e c' \<and> d c1 = d c'"
    using Cons.prems(1,2) now same rest by (intro Cons.IH [of c' w' ys]) simp_all
  with same show ?case by simp
qed

lemma EmWasm_run_sound:
  "bdata (em_bytes g) = bs \<Longrightarrow> tasks_ok (t g) bs (env (e g)) w \<Longrightarrow> fresh_ids w \<Longrightarrow>
   ops_sound H bs w \<Longrightarrow> EmWasm_run H g acts w = (xs, w1) \<Longrightarrow>
    tasks_ok (t g) bs (env (e g)) w1 \<and> fresh_ids w1 \<and> ops_sound H bs w1"
proof (induction acts arbitrary: w xs)
  case Nil
  then show ?case by simp
next
  case (Cons a acts)
  obtain x w' where step: "EmWasm_step H g a w = (x, w')"
    by (cases "EmWasm_step H g a w")
  obtain ys where rest: "EmWasm_run H g acts w' = (ys, w1)"
    using Cons.prems(5) step by (cases "EmWasm_run H g acts w'") auto
  have now: "tasks_ok (t g) bs (env (e g)) w' \<and> fresh_ids w' \<and> ops_sound H bs w'"
  proof (cases a)
    case Invoke
    with step obtain r where g: "EmWasm_get H g w = (r, w')"
      by (cases "EmWasm_get H g w") auto
    note p = EmWasm_get_pending [OF g]
    from p have grow: "next_ref w \<le> next_ref w'"
      "pending w' = pending w \<or> (\<exists>k x. pending w' = pending w @ [(k, x)] \<and> k < next_ref w')"
      by auto
    from p have grow': "pending w' = pending w \<or>
      (\<exists>k op rc. pending w' = pending w @ [(k, op, rc)] \<and>
        ((\<exists>m i. op = OpInstantiateModule m i) \<longrightarrow> compile_error H 0 bs = None))"
      by auto
    from EmWasm_get_inv [OF Cons.prems(1,2) g] fresh_ids_grow [OF Cons.prems(3) grow]
      ops_sound_grow [OF Cons.prems(4) grow']
    show ?thesis by simp
  next
    case (Resolve k)
    with step obtain r where g: "em_settle H k w = (r, w')"
      by (cases "em_settle H k w") auto
    from em_settle_pending [OF g] have shrink: "next_ref w \<le> next_ref w'"
      "set (pending w') \<subseteq> set (pending w)"
      by simp_all
    from em_settle_inv [OF Cons.prems(2) g] fresh_ids_shrink [OF Cons.prems(3) shrink]
      ops_sound_shrink [OF Cons.prems(4) shrink(2)]
    show ?thesis by simp
  qed
  with Cons.prems(1) rest show ?case by (intro Cons.IH [of w' ys]) simp_all
qed

lemma settle_verdict:
  assumes st: "steady H" and tasks: "tasks_ok ty bs imp w" and ops: "ops_sound H bs w"
  shows "(settled (fst (settle H k (c, w))) = Unsettled \<or>
     settled (fst (settle H k (c, w))) = Promised (verdict H ty bs imp)) \<and>
    (settled (fst (em_settle H k w)) = Unsettled \<or>
     settled (fst (em_settle H k w)) = Promised (verdict H ty bs imp))"
proof (cases "map_of (pending w) k")
  case None
  then show ?thesis by (simp add: settle_def em_settle_def)
next
  case (Some task)
  obtain op rc where task: "task = (op, rc)" by (cases task)
  with Some have look: "map_of (pending w) k = Some (op, rc)" by simp
  from tasks_ok_lookup [OF tasks look] have ok: "task_ok ty bs imp (op, rc)" .
  from look have "(k, op, rc) \<in> set (pending w)" by (rule map_of_SomeD)
  with ops have sound: "\<forall>m i. op = OpInstantiateModule m i \<longrightarrow> compile_error H 0 bs = None"
    unfolding ops_sound_def by fastforce
  show ?thesis
    unfolding settle_fst [OF look] em_settle_fst [OF look]
    using complete_verdict [OF st ok sound] by simp
qed

lemma dec_again:
  "dec H x w = (Inr b, w1) \<Longrightarrow>
    dec H x w' = (Inr \<lparr>bref = next_ref w', bdata = bdata b\<rparr>,
      (log (Decode x) w')\<lparr>next_ref := Suc (next_ref w')\<rparr>)"
  by (cases "Buffer_from H"; cases "atob H x") (auto simp: dec_eq)

lemma dec_fails_again:
  "dec H x w = (Inl err, w1) \<Longrightarrow> w1 = log (Decode x) w \<and> dec H x w' = (Inl err, log (Decode x) w')"
  by (cases "Buffer_from H"; cases "atob H x") (auto simp: dec_eq)

text \<open>
  C9, as amended. \<open>EmWasm\<close> and \<open>InWasm\<close> agree up to the identity of what they build,
  the moment of decoding and the name of their compile context. Given a definition whose
  \<open>d\<close> is falsy, both throw (each its own \<open>Error\<close>) when both compile contexts are
  undefined, and both call \<open>add\<close> with the same outcome when both contexts are the same
  object. Given a compiled definition that \<open>EmWasm\<close> accepts (it decodes \<open>d\<close> at entry),
  \<open>InWasm\<close> returns a getter as well, and whatever value either getter hands out at any
  step of any run has the same content: the output type \<open>t\<close>, the bytes decoded from \<open>d\<close>
  and, for an instance, the import argument \<open>_env(e)\<close>. With an engine whose verdicts do
  not change over time, the two getters moreover deliver the same at their next invocation,
  whatever the history of each: both throw the same error, or both hand over a value of
  the same content, or both return a promise that settles the same way; and whenever an
  operation in flight of either is settled, it is with that outcome. Given a compiled
  definition whose \<open>d\<close> the platform fails to decode, \<open>EmWasm\<close> throws at entry what the
  getter of \<open>InWasm\<close> throws when it is invoked. Identity is where they differ:
  \<open>InWasm\<close> returns one module on repeated invocations, \<open>EmWasm\<close> a new one each time.
\<close>

theorem loaders_agree_up_to_identity:
  \<open>(\<not> truthy (prop_d def) \<longrightarrow> wasmCtx H = None \<longrightarrow> emwasmCtx H = None \<longrightarrow>
      InWasm H def w = (Inl (Error ''must run "inwasm"''), w) \<and>
      EmWasm H def w = (Inl (Error ''must run "emwasm"''), w)) \<and>
   (\<not> truthy (prop_d def) \<longrightarrow> wasmCtx H = Some add \<longrightarrow> emwasmCtx H = Some add \<longrightarrow>
      InWasm H def w =
        (case add def w of (Some err, w1) \<Rightarrow> (Inl err, w1) | (None, w1) \<Rightarrow> (Inr Nothing, w1)) \<and>
      EmWasm H def w =
        (case add def w of (Some err, w1) \<Rightarrow> (Inl err, w1) | (None, w1) \<Rightarrow> (Inr Nothing, w1))) \<and>
   (EmWasm H (Compiled c) w = (Inr (Getter g), wg) \<longrightarrow> pending w = [] \<longrightarrow> pending w' = [] \<longrightarrow>
      InWasm H (Compiled c) w' = (Inr (Getter (fresh c)), w') \<and>
      list_all (\<lambda>x. list_all (\<lambda>k. k = expected (t c) (bdata (em_bytes g)) (env (e c)))
          (obs_content x))
        (fst (InWasm_run H acts (fresh c, w'))) \<and>
      list_all (\<lambda>x. list_all (\<lambda>k. k = expected (t c) (bdata (em_bytes g)) (env (e c)))
          (obs_content x))
        (fst (EmWasm_run H g acts' wg))) \<and>
   (steady H \<longrightarrow> EmWasm H (Compiled c) w = (Inr (Getter g), wg) \<longrightarrow> pending w = [] \<longrightarrow>
    pending w' = [] \<longrightarrow>
      InWasm_delivers H (snd (InWasm_run H acts (fresh c, w'))) =
        EmWasm_delivers H g (snd (EmWasm_run H g acts' wg)) \<and>
      EmWasm_delivers H g (snd (EmWasm_run H g acts' wg)) =
        due H (t c) (s c) (bdata (em_bytes g)) (env (e c)) \<and>
      (settled (fst (settle H k (snd (InWasm_run H acts (fresh c, w'))))) = Unsettled \<or>
       settled (fst (settle H k (snd (InWasm_run H acts (fresh c, w'))))) =
         Promised (verdict H (t c) (bdata (em_bytes g)) (env (e c)))) \<and>
      (settled (fst (em_settle H k (snd (EmWasm_run H g acts' wg)))) = Unsettled \<or>
       settled (fst (em_settle H k (snd (EmWasm_run H g acts' wg)))) =
         Promised (verdict H (t c) (bdata (em_bytes g)) (env (e c))))) \<and>
   (d c \<noteq> [] \<longrightarrow> EmWasm H (Compiled c) w = (Inl err, wr) \<longrightarrow>
      wr = log (Decode (d c)) w \<and>
      InWasm H (Compiled c) w' = (Inr (Getter (fresh c)), w') \<and>
      InWasm_get H (fresh c, w') = (Inl err, fresh c, log (Decode (d c)) w'))\<close>
proof -
  have raise: \<open>\<not> truthy (prop_d def) \<Longrightarrow> wasmCtx H = None \<Longrightarrow> emwasmCtx H = None \<Longrightarrow>
      InWasm H def w = (Inl (Error ''must run "inwasm"''), w) \<and>
      EmWasm H def w = (Inl (Error ''must run "emwasm"''), w)\<close>
    by (cases def) (simp_all add: InWasm_authoring InWasm_compiled EmWasm_authoring EmWasm_compiled)
  have register: "\<not> truthy (prop_d def) \<Longrightarrow> wasmCtx H = Some add \<Longrightarrow> emwasmCtx H = Some add \<Longrightarrow>
      InWasm H def w =
        (case add def w of (Some err, w1) \<Rightarrow> (Inl err, w1) | (None, w1) \<Rightarrow> (Inr Nothing, w1)) \<and>
      EmWasm H def w =
        (case add def w of (Some err, w1) \<Rightarrow> (Inl err, w1) | (None, w1) \<Rightarrow> (Inr Nothing, w1))"
    by (cases def) (simp_all add: InWasm_authoring InWasm_compiled EmWasm_authoring EmWasm_compiled)
  have getters: "InWasm H (Compiled c) w' = (Inr (Getter (fresh c)), w') \<and>
      list_all (\<lambda>x. list_all (\<lambda>k. k = expected (t c) (bdata (em_bytes g)) (env (e c)))
          (obs_content x))
        (fst (InWasm_run H acts (fresh c, w'))) \<and>
      list_all (\<lambda>x. list_all (\<lambda>k. k = expected (t c) (bdata (em_bytes g)) (env (e c)))
          (obs_content x))
        (fst (EmWasm_run H g acts' wg))"
    if G: "EmWasm H (Compiled c) w = (Inr (Getter g), wg)" and idle: "pending w = []" "pending w' = []"
  proof -
    let ?bs = "bdata (em_bytes g)"
    from EmWasm_Getter [OF G] have nonempty: "d c \<noteq> []"
      and dd: "dec H (d c) w = (Inr (em_bytes g), wg)"
      and same: "t g = t c" "e g = e c" and pg: "pending wg = pending w"
      by simp_all
    have decs: "\<forall>w b w1. dec H (d (fresh c)) w = (Inr b, w1) \<longrightarrow> bdata b = ?bs"
      using dec_data [OF dd] by (simp add: fresh_def)
    have cache: "cache_ok ?bs (fresh c)" by (simp add: cache_ok_def fresh_def)
    have fields: "t (fresh c) = t c" "e (fresh c) = e c" by (simp_all add: fresh_def)
    have "tasks_ok (t (fresh c)) ?bs (env (e (fresh c))) w'"
      using idle(2) by (rule no_tasks_ok)
    from InWasm_run_inv [OF decs cache this, of acts]
    have inw: "list_all (\<lambda>x. list_all (\<lambda>k. k = expected (t c) ?bs (env (e c))) (obs_content x))
        (fst (InWasm_run H acts (fresh c, w')))"
      by (simp only: fields)
    have "tasks_ok (t g) ?bs (env (e g)) wg"
      using pg idle(1) by (intro no_tasks_ok) simp
    from EmWasm_run_inv [OF refl this, of H acts']
    have emw: "list_all (\<lambda>x. list_all (\<lambda>k. k = expected (t c) ?bs (env (e c))) (obs_content x))
        (fst (EmWasm_run H g acts' wg))"
      by (simp only: same)
    from nonempty inw emw show ?thesis by (simp add: InWasm_compiled)
  qed
  have deliveries: "InWasm_delivers H (snd (InWasm_run H acts (fresh c, w'))) =
        EmWasm_delivers H g (snd (EmWasm_run H g acts' wg)) \<and>
      EmWasm_delivers H g (snd (EmWasm_run H g acts' wg)) =
        due H (t c) (s c) (bdata (em_bytes g)) (env (e c)) \<and>
      (settled (fst (settle H k (snd (InWasm_run H acts (fresh c, w'))))) = Unsettled \<or>
       settled (fst (settle H k (snd (InWasm_run H acts (fresh c, w'))))) =
         Promised (verdict H (t c) (bdata (em_bytes g)) (env (e c)))) \<and>
      (settled (fst (em_settle H k (snd (EmWasm_run H g acts' wg)))) = Unsettled \<or>
       settled (fst (em_settle H k (snd (EmWasm_run H g acts' wg)))) =
         Promised (verdict H (t c) (bdata (em_bytes g)) (env (e c))))"
    if st: "steady H" and G: "EmWasm H (Compiled c) w = (Inr (Getter g), wg)"
      and idle: "pending w = []" "pending w' = []"
  proof -
    let ?bs = "bdata (em_bytes g)"
    from EmWasm_Getter [OF G] have dd: "dec H (d c) w = (Inr (em_bytes g), wg)"
      and same: "t g = t c" "s g = s c" "e g = e c" and pg: "pending wg = pending w"
      by simp_all
    have decs: "\<forall>w b w1. dec H (d (fresh c)) w = (Inr b, w1) \<longrightarrow> bdata b = ?bs"
      using dec_data [OF dd] by (simp add: fresh_def)
    have cache: "cache_ok ?bs (fresh c)" by (simp add: cache_ok_def fresh_def)
    have fields: "t (fresh c) = t c" "s (fresh c) = s c" "e (fresh c) = e c" "d (fresh c) = d c"
      "mod' (fresh c) = None"
      by (simp_all add: fresh_def)
    have tasks: "tasks_ok (t (fresh c)) ?bs (env (e (fresh c))) w'"
      using idle(2) by (rule no_tasks_ok)
    have fr: "fresh_ids w'" and ops: "ops_sound H ?bs w'"
      using idle(2) by (simp_all add: fresh_ids_def ops_sound_def)
    obtain xs c1 w1 where run: "InWasm_run H acts (fresh c, w') = (xs, c1, w1)"
      by (cases "InWasm_run H acts (fresh c, w')")
    from InWasm_run_sound [OF st decs cache tasks _ fr ops run] fields
    have inv: "cache_ok ?bs c1" "tasks_ok (t c) ?bs (env (e c)) w1"
      "mod' c1 \<noteq> None \<longrightarrow> compile_error H 0 ?bs = None" "fresh_ids w1" "ops_sound H ?bs w1"
      and keep: "t c1 = t c" "s c1 = s c" "e c1 = e c" "d c1 = d c"
      by simp_all
    have dok: "\<forall>w. dec H (d c1) w =
        (Inr \<lparr>bref = next_ref w, bdata = ?bs\<rparr>, (log (Decode (d c1)) w)\<lparr>next_ref := Suc (next_ref w)\<rparr>)"
      using dec_again [OF dd] keep(4) by simp
    from InWasm_delivers_due [OF st dok inv(1,3,4)] keep
    have inw: "InWasm_delivers H (c1, w1) = due H (t c) (s c) ?bs (env (e c))" by simp
    have tasksg: "tasks_ok (t g) ?bs (env (e g)) wg"
      using pg idle(1) by (intro no_tasks_ok) simp
    have frg: "fresh_ids wg" and opsg: "ops_sound H ?bs wg"
      using pg idle(1) by (simp_all add: fresh_ids_def ops_sound_def)
    obtain ys w2 where run2: "EmWasm_run H g acts' wg = (ys, w2)"
      by (cases "EmWasm_run H g acts' wg")
    from EmWasm_run_sound [OF refl tasksg frg opsg run2] same
    have inv2: "tasks_ok (t c) ?bs (env (e c)) w2" "fresh_ids w2" "ops_sound H ?bs w2"
      by simp_all
    from EmWasm_delivers_due [OF st refl inv2(2), of g] same
    have emw: "EmWasm_delivers H g w2 = due H (t c) (s c) ?bs (env (e c))" by simp
    from settle_verdict [OF st inv(2,5), of k c1] settle_verdict [OF st inv2(1,3), of k c1]
      inw emw run run2
    show ?thesis by simp
  qed
  have refused: "wr = log (Decode (d c)) w \<and>
      InWasm H (Compiled c) w' = (Inr (Getter (fresh c)), w') \<and>
      InWasm_get H (fresh c, w') = (Inl err, fresh c, log (Decode (d c)) w')"
    if nonempty: "d c \<noteq> []" and F: "EmWasm H (Compiled c) w = (Inl err, wr)"
  proof -
    from F nonempty have "dec H (d c) w = (Inl err, wr)"
      by (auto simp: EmWasm_compiled split: prod.splits sum.splits)
    from dec_fails_again [OF this, of w']
    have wr: "wr = log (Decode (d c)) w" and again: "dec H (d c) w' = (Inl err, log (Decode (d c)) w')"
      by simp_all
    from decode_fails [of "fresh c" H w' err "log (Decode (d c)) w'"] again
    have "InWasm_get H (fresh c, w') = (Inl err, fresh c, log (Decode (d c)) w')"
      by (simp add: fresh_def)
    with wr nonempty show ?thesis by (simp add: InWasm_compiled)
  qed
  from raise register getters deliveries refused show ?thesis by blast
qed

theorem loaders_agree_up_to_identity_witness:
  \<open>InWasm node (Authoring adder) w0 = (Inl (Error ''must run "inwasm"''), w0) \<and>
   EmWasm node (Authoring adder) w0 = (Inl (Error ''must run "emwasm"''), w0) \<and>
   InWasm build (Authoring adder) w0 = (Inl CaptureSignal, w0\<lparr>captured := [Authoring adder]\<rparr>) \<and>
   EmWasm build (Authoring adder) w0 = (Inl CaptureSignal, w0\<lparr>captured := [Authoring adder]\<rparr>) \<and>
   list_all (\<lambda>x. list_all (\<lambda>k. k = (MODULE, empty_module, [])) (obs_content x))
     (fst (InWasm_run node [Invoke, Resolve 1]
       (fresh (compiled_def MODULE False JUndefined), w0))) \<and>
   list_all (\<lambda>x. list_all (\<lambda>k. k = (MODULE, empty_module, [])) (obs_content x))
     (fst (EmWasm_run node
       \<lparr>t = MODULE, s = False, d = ''AGFzbQEAAAA='', e = JUndefined,
          em_bytes = \<lparr>bref = 0, bdata = empty_module\<rparr>\<rparr>
       [Invoke] ((log (Decode ''AGFzbQEAAAA='') w0)\<lparr>next_ref := 1\<rparr>))) \<and>
   InWasm_delivers node (snd (InWasm_run node [Invoke, Resolve 1]
       (fresh (compiled_def MODULE False JUndefined), w0))) =
     Promised (Inr (MODULE, empty_module, [])) \<and>
   EmWasm_delivers node
       \<lparr>t = MODULE, s = False, d = ''AGFzbQEAAAA='', e = JUndefined,
          em_bytes = \<lparr>bref = 0, bdata = empty_module\<rparr>\<rparr>
       (snd (EmWasm_run node
         \<lparr>t = MODULE, s = False, d = ''AGFzbQEAAAA='', e = JUndefined,
            em_bytes = \<lparr>bref = 0, bdata = empty_module\<rparr>\<rparr>
         [Invoke] ((log (Decode ''AGFzbQEAAAA='') w0)\<lparr>next_ref := 1\<rparr>))) =
     Promised (Inr (MODULE, empty_module, [])) \<and>
   InWasm_get browser (fresh \<lparr>t = BYTES, s = True, d = ''!'', e = JUndefined\<rparr>, w0) =
     (Inl (DOMException ''InvalidCharacterError''),
      fresh \<lparr>t = BYTES, s = True, d = ''!'', e = JUndefined\<rparr>, log (Decode ''!'') w0)\<close>
proof -
  let ?c = "compiled_def MODULE False JUndefined"
  let ?g = "\<lparr>t = MODULE, s = False, d = ''AGFzbQEAAAA='', e = JUndefined,
    em_bytes = \<lparr>bref = 0, bdata = empty_module\<rparr>\<rparr>"
  let ?wg = "(log (Decode ''AGFzbQEAAAA='') w0)\<lparr>next_ref := 1\<rparr>"
  let ?x = "\<lparr>t = BYTES, s = True, d = ''!'', e = JUndefined\<rparr>"
  let ?bad = "DOMException ''InvalidCharacterError''"
  have falsy: "\<not> truthy (prop_d (Authoring adder))" by simp
  have none: "wasmCtx node = None" "emwasmCtx node = None" by (simp_all add: node_def)
  have some: "wasmCtx build = Some capture" "emwasmCtx build = Some capture"
    by (simp_all add: build_def node_def)
  have idle: "pending w0 = []" "next_ref w0 = 0" by (simp_all add: w0_def)
  have decoded: "std_from_base64 ''AGFzbQEAAAA='' = empty_module" by code_simp
  have entry: "EmWasm node (Compiled ?c) w0 = (Inr (Getter ?g), ?wg)"
    using decoded idle by (simp add: EmWasm_compiled compiled_def_def dec_eq node_def)
  have shape: "t ?c = MODULE" "\<not> s ?c" "e ?c = JUndefined" by (simp_all add: compiled_def_def)
  have st: "steady node" by (simp add: steady_def node_def magic_check_def)
  have owed: "due node MODULE False empty_module (env JUndefined) =
      Promised (Inr (MODULE, empty_module, []))"
    by code_simp
  note inst = loaders_agree_up_to_identity [where H = node and w = w0 and add = capture and
      c = ?c and g = ?g and wg = ?wg and w' = w0 and acts = "[Invoke, Resolve 1]" and
      acts' = "[Invoke]" and k = 0 and err = ?bad and wr = w0]
  from inst [of "Authoring adder"] falsy none entry idle shape st owed
  have 1: \<open>InWasm node (Authoring adder) w0 = (Inl (Error ''must run "inwasm"''), w0) \<and>
      EmWasm node (Authoring adder) w0 = (Inl (Error ''must run "emwasm"''), w0) \<and>
      list_all (\<lambda>x. list_all (\<lambda>k. k = (MODULE, empty_module, [])) (obs_content x))
        (fst (InWasm_run node [Invoke, Resolve 1] (fresh ?c, w0))) \<and>
      list_all (\<lambda>x. list_all (\<lambda>k. k = (MODULE, empty_module, [])) (obs_content x))
        (fst (EmWasm_run node ?g [Invoke] ?wg)) \<and>
      InWasm_delivers node (snd (InWasm_run node [Invoke, Resolve 1] (fresh ?c, w0))) =
        Promised (Inr (MODULE, empty_module, [])) \<and>
      EmWasm_delivers node ?g (snd (EmWasm_run node ?g [Invoke] ?wg)) =
        Promised (Inr (MODULE, empty_module, []))\<close>
    by (simp add: expected_def)
  from loaders_agree_up_to_identity [where H = build and w = w0 and add = capture and
      c = ?c and g = ?g and wg = ?wg and w' = w0 and acts = "[Invoke]" and
      acts' = "[Invoke]" and k = 0 and err = ?bad and wr = w0, of "Authoring adder"]
    falsy some
  have 2: "InWasm build (Authoring adder) w0 = (Inl CaptureSignal, w0\<lparr>captured := [Authoring adder]\<rparr>) \<and>
      EmWasm build (Authoring adder) w0 = (Inl CaptureSignal, w0\<lparr>captured := [Authoring adder]\<rparr>)"
    by (simp add: capture_def w0_def)
  have "std_atob ''!'' = Inl ?bad" by code_simp
  then have refused: "EmWasm browser (Compiled ?x) w0 = (Inl ?bad, log (Decode ''!'') w0)"
    by (simp add: EmWasm_compiled dec_eq browser_def node_def)
  from loaders_agree_up_to_identity [where H = browser and w = w0 and add = capture and
      c = ?x and g = ?g and wg = ?wg and w' = w0 and acts = "[Invoke]" and
      acts' = "[Invoke]" and k = 0 and err = ?bad and wr = "log (Decode ''!'') w0",
      of "Authoring adder"] refused
  have 3: "InWasm_get browser (fresh ?x, w0) = (Inl ?bad, fresh ?x, log (Decode ''!'') w0)"
    by simp
  from 1 2 3 show ?thesis by simp
qed

theorem loaders_differ_in_identity_counterexample:
  "fst (InWasm_session node (compiled_def MODULE True JUndefined) [Invoke, Invoke]) =
     [Returned (Inr (Now (VModule \<lparr>mref = 1, mcode = empty_module\<rparr>))),
      Returned (Inr (Now (VModule \<lparr>mref = 1, mcode = empty_module\<rparr>)))] \<and>
   fst (EmWasm_session node (compiled_def MODULE True JUndefined) [Invoke, Invoke]) =
     [Returned (Inr (Now (VModule \<lparr>mref = 1, mcode = empty_module\<rparr>))),
      Returned (Inr (Now (VModule \<lparr>mref = 2, mcode = empty_module\<rparr>)))]"
  by code_simp


section \<open>The definition object\<close>

text \<open>
  Nothing that a getter does reads the store of definition objects: every operation
  commutes with an assignment to it.
\<close>

lemma dec_heap:
  "dec H x (w\<lparr>heap := h\<rparr>) = (case dec H x w of (r, w1) \<Rightarrow> (r, w1\<lparr>heap := h\<rparr>))"
  by (simp add: dec_eq log_def split: option.split sum.split)

lemma new_Module_heap:
  "new_Module H b (w\<lparr>heap := h\<rparr>) = (case new_Module H b w of (r, w1) \<Rightarrow> (r, w1\<lparr>heap := h\<rparr>))"
  by (simp add: new_Module_eq log_def split: option.split)

lemma new_Instance_heap:
  "new_Instance H m imp (w\<lparr>heap := h\<rparr>) =
    (case new_Instance H m imp w of (r, w1) \<Rightarrow> (r, w1\<lparr>heap := h\<rparr>))"
  by (simp add: new_Instance_eq log_def split: option.split)

lemma W_async_heap:
  "W_async op r (w\<lparr>heap := h\<rparr>) = (case W_async op r w of (x, w1) \<Rightarrow> (x, w1\<lparr>heap := h\<rparr>))"
  by (simp add: W_async_eq log_def)

lemma complete_heap:
  "complete H op (w\<lparr>heap := h\<rparr>) = (case complete H op w of (r, w1) \<Rightarrow> (r, w1\<lparr>heap := h\<rparr>))"
  by (cases op) (simp_all add: complete_def alloc_def Let_def split: option.split)

lemma bytes_or_dec_heap:
  "bytes_or_dec H (c, w\<lparr>heap := h\<rparr>) =
    (case bytes_or_dec H (c, w) of (r, c1, w1) \<Rightarrow> (r, c1, w1\<lparr>heap := h\<rparr>))"
  by (simp add: bytes_or_dec_eq dec_heap split: option.split prod.split sum.split)

lemma mod_or_new_heap:
  "mod_or_new H (c, w\<lparr>heap := h\<rparr>) =
    (case mod_or_new H (c, w) of (r, c1, w1) \<Rightarrow> (r, c1, w1\<lparr>heap := h\<rparr>))"
  by (simp add: mod_or_new_eq bytes_or_dec_heap new_Module_heap
      split: option.split prod.split sum.split)

lemma InWasm_get_heap:
  "InWasm_get H (c, w\<lparr>heap := h\<rparr>) =
    (case InWasm_get H (c, w) of (r, c1, w1) \<Rightarrow> (r, c1, w1\<lparr>heap := h\<rparr>))"
proof (cases "t c")
  case BYTES
  then show ?thesis
    by (simp add: get_BYTES bytes_or_dec_heap split: prod.split sum.split)
next
  case MODULE
  then show ?thesis
    by (cases "s c")
      (simp_all add: get_MODULE_SYNC get_MODULE_ASYNC mod_or_new_heap bytes_or_dec_heap
        W_async_heap split: prod.split sum.split option.split)
next
  case INSTANCE
  then show ?thesis
    by (cases "s c")
      (simp_all add: get_INSTANCE_SYNC get_INSTANCE_ASYNC mod_or_new_heap bytes_or_dec_heap
        new_Instance_heap W_async_heap split: prod.split sum.split option.split)
qed

lemma log_heap: "log ev (w\<lparr>heap := h\<rparr>) = (log ev w)\<lparr>heap := h\<rparr>"
  by (simp add: log_def)

lemma settled_heap:
  "log ev (w\<lparr>heap := h, pending := ps\<rparr>) = (log ev (w\<lparr>pending := ps\<rparr>))\<lparr>heap := h\<rparr>"
  by (simp add: log_def)

lemma settle_heap:
  "settle H k (c, w\<lparr>heap := h\<rparr>) =
    (case settle H k (c, w) of (r, c1, w1) \<Rightarrow> (r, c1, w1\<lparr>heap := h\<rparr>))"
proof -
  have "complete H op (log (Settle k)
        (w\<lparr>heap := h, pending := filter (\<lambda>p. fst p \<noteq> k) (pending w)\<rparr>)) =
      (case complete H op (log (Settle k) (w\<lparr>pending := filter (\<lambda>p. fst p \<noteq> k) (pending w)\<rparr>)) of
         (r, w1) \<Rightarrow> (r, w1\<lparr>heap := h\<rparr>))" for op
    by (simp only: settled_heap complete_heap)
  then show ?thesis
    by (simp add: settle_def split: option.split prod.split sum.split)
qed

lemma InWasm_run_heap:
  "InWasm_run H acts (c, w\<lparr>heap := h\<rparr>) =
    (case InWasm_run H acts (c, w) of (xs, c1, w1) \<Rightarrow> (xs, c1, w1\<lparr>heap := h\<rparr>))"
proof (induction acts arbitrary: c w)
  case Nil
  show ?case by simp
next
  case (Cons a acts)
  have step: "InWasm_step H a (c, w\<lparr>heap := h\<rparr>) =
      (case InWasm_step H a (c, w) of (x, c1, w1) \<Rightarrow> (x, c1, w1\<lparr>heap := h\<rparr>))"
    by (cases a) (simp_all add: InWasm_get_heap settle_heap split: prod.split)
  obtain x c' w' where st: "InWasm_step H a (c, w) = (x, c', w')"
    by (cases "InWasm_step H a (c, w)")
  with step Cons.IH [of c' w'] show ?case
    by (simp split: prod.split)
qed

lemma EmWasm_get_heap:
  "EmWasm_get H g (w\<lparr>heap := h\<rparr>) = (case EmWasm_get H g w of (r, w1) \<Rightarrow> (r, w1\<lparr>heap := h\<rparr>))"
  by (simp add: EmWasm_get_def returnE_def bindE_def new_Module_heap new_Instance_heap
      W_async_heap split: prod.split sum.split)

lemma em_settle_heap:
  "em_settle H k (w\<lparr>heap := h\<rparr>) = (case em_settle H k w of (r, w1) \<Rightarrow> (r, w1\<lparr>heap := h\<rparr>))"
proof -
  have "complete H op (log (Settle k)
        (w\<lparr>heap := h, pending := filter (\<lambda>p. fst p \<noteq> k) (pending w)\<rparr>)) =
      (case complete H op (log (Settle k) (w\<lparr>pending := filter (\<lambda>p. fst p \<noteq> k) (pending w)\<rparr>)) of
         (r, w1) \<Rightarrow> (r, w1\<lparr>heap := h\<rparr>))" for op
    by (simp only: settled_heap complete_heap)
  then show ?thesis
    by (simp add: em_settle_def split: option.split prod.split sum.split)
qed

lemma EmWasm_run_heap:
  "EmWasm_run H g acts (w\<lparr>heap := h\<rparr>) =
    (case EmWasm_run H g acts w of (xs, w1) \<Rightarrow> (xs, w1\<lparr>heap := h\<rparr>))"
proof (induction acts arbitrary: w)
  case Nil
  show ?case by simp
next
  case (Cons a acts)
  have step: "EmWasm_step H g a (w\<lparr>heap := h\<rparr>) =
      (case EmWasm_step H g a w of (x, w1) \<Rightarrow> (x, w1\<lparr>heap := h\<rparr>))"
    by (cases a) (simp_all add: EmWasm_get_heap em_settle_heap split: prod.split)
  obtain x w' where st: "EmWasm_step H g a w = (x, w')"
    by (cases "EmWasm_step H g a w")
  with step Cons.IH [of w'] show ?case
    by (simp split: prod.split)
qed

lemma InWasm_at_heap:
  assumes "InWasm_at H p w = (r, w1)"
  shows "heap w1 = heap w \<or>
    (\<exists>add def x. wasmCtx H = Some add \<and> heap w p = Some def \<and> add def w = (x, w1))"
proof (cases "heap w p")
  case None
  with assms show ?thesis by (auto simp: InWasm_at_def)
next
  case (Some def)
  with assms have "InWasm H def w = (r, w1)" by (simp add: InWasm_at_def)
  then show ?thesis
    using Some
    by (cases def)
      (auto simp: InWasm_authoring InWasm_compiled split: option.splits prod.splits if_splits)
qed

lemma EmWasm_at_heap:
  assumes "EmWasm_at H p w = (r, w1)"
  shows "heap w1 = heap w \<or>
    (\<exists>add def x. emwasmCtx H = Some add \<and> heap w p = Some def \<and> add def w = (x, w1))"
proof (cases "heap w p")
  case None
  with assms show ?thesis by (auto simp: EmWasm_at_def)
next
  case (Some def)
  with assms have "EmWasm H def w = (r, w1)" by (simp add: EmWasm_at_def)
  then show ?thesis
    using Some
    by (cases def)
      (auto simp: EmWasm_authoring EmWasm_compiled dec_eq log_def
        split: option.splits prod.splits if_splits sum.splits)
qed

text \<open>
  C10. An entry point reads the definition object and assigns to none of its properties:
  the store of definition objects comes back as it was, unless \<open>add\<close> of the compile
  context, which is handed the object, changed it. The getter it returns holds the values
  that \<open>t\<close>, \<open>s\<close>, \<open>d\<close> and \<open>e\<close> had in the object when the entry point ran (in
  \<open>EmWasm\<close> together with the bytes decoded from that \<open>d\<close>) and no reference to the
  object: replacing the store of definition objects by any other, at any moment after the
  entry point has returned, changes nothing in what any later run of the getter returns, nor
  in the closure or the rest of the world.
\<close>

theorem definition_read_once:
  "(heap w p = Some (Compiled c) \<longrightarrow> d c \<noteq> [] \<longrightarrow>
      InWasm_at H p w =
        (Inr (Getter \<lparr>t = t c, s = s c, d = d c, e = e c, bytes = None, mod' = None\<rparr>), w) \<and>
      EmWasm_at H p w =
        (case dec H (d c) w of
           (Inl err, w1) \<Rightarrow> (Inl err, w1)
         | (Inr b, w1) \<Rightarrow>
             (Inr (Getter \<lparr>t = t c, s = s c, d = d c, e = e c, em_bytes = b\<rparr>), w1))) \<and>
   (InWasm_at H p w = (r, w1) \<longrightarrow>
      heap w1 = heap w \<or>
      (\<exists>add def x. wasmCtx H = Some add \<and> heap w p = Some def \<and> add def w = (x, w1))) \<and>
   (EmWasm_at H p w = (r', w1) \<longrightarrow>
      heap w1 = heap w \<or>
      (\<exists>add def x. emwasmCtx H = Some add \<and> heap w p = Some def \<and> add def w = (x, w1))) \<and>
   InWasm_run H acts (g, w\<lparr>heap := h\<rparr>) =
     (case InWasm_run H acts (g, w) of (xs, g1, w2) \<Rightarrow> (xs, g1, w2\<lparr>heap := h\<rparr>)) \<and>
   EmWasm_run H g' acts (w\<lparr>heap := h\<rparr>) =
     (case EmWasm_run H g' acts w of (xs, w2) \<Rightarrow> (xs, w2\<lparr>heap := h\<rparr>))"
proof -
  have entry: "heap w p = Some (Compiled c) \<Longrightarrow> d c \<noteq> [] \<Longrightarrow>
      InWasm_at H p w =
        (Inr (Getter \<lparr>t = t c, s = s c, d = d c, e = e c, bytes = None, mod' = None\<rparr>), w) \<and>
      EmWasm_at H p w =
        (case dec H (d c) w of
           (Inl err, w1) \<Rightarrow> (Inl err, w1)
         | (Inr b, w1) \<Rightarrow>
             (Inr (Getter \<lparr>t = t c, s = s c, d = d c, e = e c, em_bytes = b\<rparr>), w1))"
    by (simp add: InWasm_at_def EmWasm_at_def InWasm_compiled EmWasm_compiled fresh_def)
  show ?thesis
    using entry InWasm_at_heap [of H p w r w1] EmWasm_at_heap [of H p w r' w1]
      InWasm_run_heap [where H = H and acts = acts and c = g and w = w and h = h]
      EmWasm_run_heap [where H = H and acts = acts and g = g' and w = w and h = h]
    by blast
qed

theorem definition_read_once_witness:
  "InWasm_at node 7
     (w0\<lparr>heap := (\<lambda>r. None)(7 := Some (Compiled (compiled_def MODULE True JUndefined)))\<rparr>) =
     (Inr (Getter (fresh (compiled_def MODULE True JUndefined))),
      w0\<lparr>heap := (\<lambda>r. None)(7 := Some (Compiled (compiled_def MODULE True JUndefined)))\<rparr>) \<and>
   fst (InWasm_run node [Invoke, Invoke]
     (fresh (compiled_def MODULE True JUndefined),
      w0\<lparr>heap := (\<lambda>r. None)(7 := Some (Compiled (compiled_def BYTES False (JStr ''x''))))\<rparr>)) =
     [Returned (Inr (Now (VModule \<lparr>mref = 1, mcode = empty_module\<rparr>))),
      Returned (Inr (Now (VModule \<lparr>mref = 1, mcode = empty_module\<rparr>)))]"
proof -
  let ?c = "compiled_def MODULE True JUndefined"
  let ?h = "(\<lambda>r. None)(7 := Some (Compiled ?c))"
  let ?h' = "(\<lambda>r. None)(7 := Some (Compiled (compiled_def BYTES False (JStr ''x''))))"
  let ?g' = "\<lparr>t = MODULE, s = True, d = ''AGFzbQEAAAA='', e = JUndefined,
    em_bytes = \<lparr>bref = 0, bdata = empty_module\<rparr>\<rparr>"
  let ?w = "w0\<lparr>heap := ?h\<rparr>"
  have held: "heap ?w 7 = Some (Compiled ?c)" "d ?c \<noteq> []"
    by (simp_all add: compiled_def_def)
  obtain r w1 where e1: "InWasm_at node 7 ?w = (r, w1)" by (cases "InWasm_at node 7 ?w")
  obtain r' w1' where e2: "EmWasm_at node 7 ?w = (r', w1')" by (cases "EmWasm_at node 7 ?w")
  from definition_read_once [of ?w 7 ?c node r w1 r' "[Invoke, Invoke]" "fresh ?c" ?h' ?g'] held
  have entry: "InWasm_at node 7 ?w = (Inr (Getter (fresh ?c)), ?w)"
    by (simp add: fresh_def)
  have plain: "fst (InWasm_run node [Invoke, Invoke] (fresh ?c, w0)) =
      [Returned (Inr (Now (VModule \<lparr>mref = 1, mcode = empty_module\<rparr>))),
       Returned (Inr (Now (VModule \<lparr>mref = 1, mcode = empty_module\<rparr>)))]"
    by code_simp
  from definition_read_once [of w0 7 ?c node r w1 r' "[Invoke, Invoke]" "fresh ?c" ?h' ?g']
  have "InWasm_run node [Invoke, Invoke] (fresh ?c, w0\<lparr>heap := ?h'\<rparr>) =
      (case InWasm_run node [Invoke, Invoke] (fresh ?c, w0) of
         (xs, g1, w2) \<Rightarrow> (xs, g1, w2\<lparr>heap := ?h'\<rparr>))"
    by blast
  with plain have "fst (InWasm_run node [Invoke, Invoke] (fresh ?c, w0\<lparr>heap := ?h'\<rparr>)) =
      [Returned (Inr (Now (VModule \<lparr>mref = 1, mcode = empty_module\<rparr>))),
       Returned (Inr (Now (VModule \<lparr>mref = 1, mcode = empty_module\<rparr>)))]"
    by (cases "InWasm_run node [Invoke, Invoke] (fresh ?c, w0)") simp
  with entry show ?thesis by simp
qed

end
